theory Spec2Isabelle
  imports Main
begin

section \<open>Strings\<close>

text \<open>
  A Python \<open>str\<close> is a sequence of Unicode code points, so a text is a list of natural
  numbers: \<open>?\<close> is 63, the Arabic question mark U+061F is 1567, line feed is 10.
\<close>

type_synonym ustring = "nat list"

abbreviation qmark :: nat where "qmark \<equiv> 63"
abbreviation arabic_qmark :: nat where "arabic_qmark \<equiv> 1567"
abbreviation newline :: nat where "newline \<equiv> 10"

text \<open>
  \<open>str.strip()\<close> without argument removes the characters for which \<open>str.isspace\<close> holds;
  the regular expression class \<open>\s\<close> of a \<open>str\<close> pattern accepts the same characters.
  The table is CPython's: U+0009..U+000D, U+001C..U+0020, U+0085, U+00A0, U+1680,
  U+2000..U+200A, U+2028, U+2029, U+202F, U+205F, U+3000.
\<close>

definition is_space :: "nat \<Rightarrow> bool" where
  "is_space c \<longleftrightarrow>
     (9 \<le> c \<and> c \<le> 13) \<or> (28 \<le> c \<and> c \<le> 32) \<or> c = 133 \<or> c = 160 \<or> c = 5760 \<or>
     (8192 \<le> c \<and> c \<le> 8202) \<or> c = 8232 \<or> c = 8233 \<or> c = 8239 \<or> c = 8287 \<or> c = 12288"

definition strip :: "ustring \<Rightarrow> ustring" where
  "strip s = rev (dropWhile is_space (rev (dropWhile is_space s)))"

text \<open>The class \<open>[A-Z]\<close>.\<close>

definition is_upper :: "nat \<Rightarrow> bool" where
  "is_upper c \<longleftrightarrow> 65 \<le> c \<and> c \<le> 90"

section \<open>The regular expressions of the extractors\<close>

text \<open>
  \<open>run_until t k acc xs\<close> runs the pattern tail \<open>[^t]{k,}t\<close> on \<open>xs\<close>, with \<open>acc\<close> the
  characters matched so far; it returns the whole match and the unread rest.
  While repetitions are still owed (\<open>k > 0\<close>) the next character must be in \<open>[^t]\<close>.
  Afterwards the lazy form \<open>[^t]{k,}?t\<close> tries \<open>t\<close> first and takes one more character
  of \<open>[^t]\<close> only when that fails, which is when the character is not \<open>t\<close>; the greedy
  form \<open>[^t]{k,}t\<close> takes characters of \<open>[^t]\<close> as long as it can and then needs \<open>t\<close>,
  and giving characters back cannot help, since a character given back is not \<open>t\<close>.
  Both therefore stop at the first \<open>t\<close>. A negated class accepts line breaks under
  every flag.
\<close>

fun run_until :: "nat \<Rightarrow> nat \<Rightarrow> ustring \<Rightarrow> ustring \<Rightarrow> (ustring \<times> ustring) option" where
  "run_until t k acc [] = None"
| "run_until t k acc (x # xs) =
     (if x \<noteq> t then run_until t (k - 1) (acc @ [x]) xs
      else if k = 0 then Some (acc @ [x], xs) else None)"

text \<open>
  \<open>screen_qna.py\<close>, \<open>extract_questions\<close>: the pattern \<open>([A-Z][^?]{3,}?\?)\<close> tried at the
  start of a text.
\<close>

fun question_at :: "ustring \<Rightarrow> (ustring \<times> ustring) option" where
  "question_at [] = None"
| "question_at (c # cs) = (if is_upper c then run_until qmark 3 [c] cs else None)"

lemma run_until_length: "run_until t k acc xs = Some (m, rest) \<Longrightarrow> length rest < length xs"
proof (induction xs arbitrary: k acc)
  case Nil
  then show ?case by simp
next
  case (Cons x xs)
  show ?case
  proof (cases "x = t")
    case True
    with Cons.prems show ?thesis by (simp split: if_splits)
  next
    case False
    with Cons.prems have "run_until t (k - 1) (acc @ [x]) xs = Some (m, rest)" by simp
    from Cons.IH [OF this] show ?thesis by simp
  qed
qed

lemma question_at_length: "question_at xs = Some (m, rest) \<Longrightarrow> length rest < length xs"
  by (cases xs) (auto split: if_splits dest: run_until_length)

text \<open>
  \<open>re.findall\<close> with this pattern: the matches from left to right, each search resuming
  where the previous match ended, and one character further on where no match starts.
  The single group spans the whole pattern, so the items are the matches themselves.
\<close>

function findall :: "ustring \<Rightarrow> ustring list" where
  "findall [] = []"
| "findall (c # cs) =
     (case question_at (c # cs) of
        Some (m, rest) \<Rightarrow> m # findall rest
      | None \<Rightarrow> findall cs)"
  by pat_completeness auto
termination
proof (relation "measure length")
  show "wf (measure length)" by simp
next
  fix c cs x2 m rest
  assume "question_at (c # cs) = Some x2" "(m, rest) = x2"
  then have "question_at (c # cs) = Some (m, rest)" by simp
  then show "(rest, c # cs) \<in> measure length"
    using question_at_length by fastforce
next
  fix c :: nat and cs :: ustring
  show "(cs, c # cs) \<in> measure length" by simp
qed

text \<open>
  \<open>dict.fromkeys\<close> followed by \<open>list\<close>: the keys in the order of their first insertion.
\<close>

definition fromkeys :: "'a list \<Rightarrow> 'a list" where
  "fromkeys xs = foldl (\<lambda>d k. if k \<in> set d then d else d @ [k]) [] xs"

definition extract_questions :: "ustring \<Rightarrow> ustring list" where
  "extract_questions text = fromkeys (map strip (findall text))"

text \<open>
  \<open>re.search\<close>: the match at the leftmost position where the pattern matches, the end
  of the text included as a position.
\<close>

fun search :: "(ustring \<Rightarrow> (ustring \<times> ustring) option) \<Rightarrow> ustring \<Rightarrow> ustring option" where
  "search p [] = map_option fst (p [])"
| "search p (c # cs) = (case p (c # cs) of Some (m, rest) \<Rightarrow> Some m | None \<Rightarrow> search p cs)"

text \<open>
  \<open>screen_qna_gui.py\<close>, \<open>extract_question\<close> inside \<open>run_ocr_and_answer\<close>: the patterns
  \<open>[^t]{2,}t\<close> with \<open>t\<close> the Arabic and then the Latin question mark, then the whole
  text.
\<close>

definition run_at :: "nat \<Rightarrow> ustring \<Rightarrow> (ustring \<times> ustring) option" where
  "run_at t xs = run_until t 2 [] xs"

definition extract_question :: "ustring \<Rightarrow> ustring" where
  "extract_question txt =
     (case search (run_at arabic_qmark) txt of
        Some m_ar \<Rightarrow> strip m_ar
      | None \<Rightarrow>
          (case search (run_at qmark) txt of
             Some m_en \<Rightarrow> strip m_en
           | None \<Rightarrow> strip txt))"

section \<open>The answer formatter\<close>

text \<open>
  \<open>screen_qna_gui.py\<close>, \<open>run_ocr_and_answer\<close>, the lines after the query. The pattern
  is \<open>^([\dA]+[P]?)\s+(.*)\<close>, applied with \<open>re.match\<close> and no flag, where \<open>A\<close>
  stands for the range U+0660..U+0669 that the source writes with the Arabic-Indic
  digits zero and nine, and \<open>P\<close> for the two percent signs U+0025 and U+066A.

  \<open>\d\<close> of a \<open>str\<close> pattern accepts the decimal digits of the interpreter's Unicode
  database; that table is not part of the program, so it is the parameter \<open>nd\<close>.
\<close>

definition is_arabic_char :: "nat \<Rightarrow> bool" where
  "is_arabic_char ch \<longleftrightarrow> 1536 \<le> ch \<and> ch \<le> 1791"

definition arabic_prefix :: ustring where
  "arabic_prefix = [1575, 1604, 1573, 1580, 1575, 1576, 1577, 58, 32]"

definition answer_prefix :: ustring where
  "answer_prefix = [65, 110, 115, 119, 101, 114, 58, 32]"

definition digit_class :: "(nat \<Rightarrow> bool) \<Rightarrow> nat \<Rightarrow> bool" where
  "digit_class nd c \<longleftrightarrow> nd c \<or> (1632 \<le> c \<and> c \<le> 1641)"

definition percent_class :: "nat \<Rightarrow> bool" where
  "percent_class c \<longleftrightarrow> c = 37 \<or> c = 1642"

text \<open>
  \<open>\s+(.*)\<close> after the first group \<open>num\<close>: the greedy \<open>\s+\<close> takes the whole run of
  white space, and \<open>(.*)\<close>, which cannot fail, takes the characters up to the next line
  feed (without \<open>DOTALL\<close> the dot accepts everything but U+000A).
\<close>

definition after_token :: "ustring \<Rightarrow> ustring \<Rightarrow> (ustring \<times> ustring) option" where
  "after_token num xs =
     (if xs \<noteq> [] \<and> is_space (hd xs)
      then Some (num, takeWhile (\<lambda>c. c \<noteq> newline) (dropWhile is_space xs))
      else None)"

text \<open>\<open>[P]?\<close>: with the percent sign first, without it when the rest then fails.\<close>

definition after_digits :: "ustring \<Rightarrow> ustring \<Rightarrow> (ustring \<times> ustring) option" where
  "after_digits num xs =
     (case xs of
        [] \<Rightarrow> after_token num []
      | p # ps \<Rightarrow>
          (if percent_class p
           then (case after_token (num @ [p]) ps of
                   Some r \<Rightarrow> Some r
                 | None \<Rightarrow> after_token num xs)
           else after_token num xs))"

text \<open>
  The greedy \<open>[\dA]+\<close>: one digit at least, then as many as possible, giving them back
  one by one while the rest of the pattern fails.
\<close>

fun digits_plus :: "(nat \<Rightarrow> bool) \<Rightarrow> ustring \<Rightarrow> ustring \<Rightarrow> (ustring \<times> ustring) option" where
  "digits_plus nd num [] = None"
| "digits_plus nd num (x # xs) =
     (if digit_class nd x
      then (case digits_plus nd (num @ [x]) xs of
              Some r \<Rightarrow> Some r
            | None \<Rightarrow> after_digits (num @ [x]) xs)
      else None)"

definition format_answer :: "(nat \<Rightarrow> bool) \<Rightarrow> ustring \<Rightarrow> ustring \<Rightarrow> ustring" where
  "format_answer nd text answer =
     (let is_arabic = list_ex is_arabic_char text;
          prefix = (if is_arabic then arabic_prefix else answer_prefix);
          (num_part, ans_main) =
            (case digits_plus nd [] answer of
               Some (n, b) \<Rightarrow> (n, b)
             | None \<Rightarrow> ([], answer))
      in strip (num_part @ [32] @ prefix @ ans_main))"

section \<open>The region selector\<close>

text \<open>
  \<open>select_region\<close> of \<open>screen_qna_gui.py\<close> and of \<open>screen_qna_snap.py\<close>: the same
  handlers on the dictionary \<open>sel\<close> and the same final test. The toolkit delivers the
  pointer events; once a handler has destroyed the overlay none is delivered any more.
\<close>

datatype event = ButtonPress int int | Motion int int | ButtonRelease int int | Escape

record selector =
  sel :: "string \<rightharpoonup> int"
  rect_id :: "(int \<times> int \<times> int \<times> int) option"
  destroyed :: bool

definition selector0 :: selector where
  "selector0 = \<lparr>sel = Map.empty, rect_id = None, destroyed = False\<rparr>"

fun handle :: "selector \<Rightarrow> event \<Rightarrow> selector" where
  "handle s (ButtonPress x y) =
     (if destroyed s then s
      else s\<lparr>sel := (sel s)(''x1'' \<mapsto> x, ''y1'' \<mapsto> y), rect_id := Some (x, y, x, y)\<rparr>)"
| "handle s (Motion x y) =
     (if destroyed s then s
      else (case rect_id s of
              None \<Rightarrow> s
            | Some r \<Rightarrow> s\<lparr>rect_id := Some (the (sel s ''x1''), the (sel s ''y1''), x, y)\<rparr>))"
| "handle s (ButtonRelease x y) =
     (if destroyed s then s
      else s\<lparr>sel := (sel s)(''x2'' \<mapsto> x, ''y2'' \<mapsto> y), destroyed := True\<rparr>)"
| "handle s Escape =
     (if destroyed s then s else s\<lparr>sel := Map.empty, destroyed := True\<rparr>)"

definition select_region :: "event list \<Rightarrow> (int \<times> int \<times> int \<times> int) option" where
  "select_region events =
     (let s = sel (foldl handle selector0 events)
      in if {''x1'', ''y1'', ''x2'', ''y2''} \<subseteq> dom s
         then Some (min (the (s ''x1'')) (the (s ''x2'')),
                    min (the (s ''y1'')) (the (s ''y2'')),
                    max (the (s ''x1'')) (the (s ''x2'')),
                    max (the (s ''y1'')) (the (s ''y2'')))
         else None)"

section \<open>The answer client\<close>

text \<open>
  The remote service is outside the program: \<open>svc\<close> maps its state and a prompt to a
  reply and its next state. \<open>requests\<close> records the prompts handed to the client
  library, in order. The credential is the value of \<open>os.getenv("OPENAI_API_KEY")\<close>;
  \<open>not api_key\<close> holds for \<open>None\<close> and for the empty string. The two generations of
  the client library that the functions try in turn reach the same service and are
  one call here.
\<close>

datatype reply = Content ustring | AuthenticationError ustring | OtherException ustring

datatype exn = RuntimeError string | Raised ustring

type_synonym 'w service = "'w \<Rightarrow> ustring \<Rightarrow> reply \<times> 'w"

record 'w net =
  remote :: 'w
  requests :: "ustring list"

definition no_key :: "ustring option \<Rightarrow> bool" where
  "no_key api_key \<longleftrightarrow> api_key = None \<or> api_key = Some []"

definition send :: "'w service \<Rightarrow> 'w net \<Rightarrow> ustring \<Rightarrow> reply \<times> 'w net" where
  "send svc n prompt =
     (case svc (remote n) prompt of
        (r, w) \<Rightarrow> (r, \<lparr>remote = w, requests = requests n @ [prompt]\<rparr>))"

text \<open>\<open>screen_qna.py\<close>, \<open>query_openai\<close>.\<close>

definition query_openai ::
  "ustring option \<Rightarrow> 'w service \<Rightarrow> 'w net \<Rightarrow> ustring \<Rightarrow> (exn + ustring) \<times> 'w net" where
  "query_openai api_key svc n question =
     (if no_key api_key
      then (Inl (RuntimeError ''OPENAI_API_KEY environment variable not set.''), n)
      else (case send svc n question of
              (Content c, n') \<Rightarrow> (Inr (strip c), n')
            | (AuthenticationError e, n') \<Rightarrow> (Inl (Raised e), n')
            | (OtherException e, n') \<Rightarrow> (Inl (Raised e), n')))"

text \<open>\<open>screen_qna_gui.py\<close>, \<open>query_openai\<close>.\<close>

definition query_openai_gui ::
  "ustring option \<Rightarrow> 'w service \<Rightarrow> 'w net \<Rightarrow> ustring \<Rightarrow> (exn + ustring) \<times> 'w net" where
  "query_openai_gui api_key svc n prompt =
     (if no_key api_key
      then (Inl (RuntimeError ''OPENAI_API_KEY environment variable not set.''), n)
      else (case send svc n prompt of
              (Content c, n') \<Rightarrow> (Inr (strip c), n')
            | (AuthenticationError e, n') \<Rightarrow>
                (Inl (RuntimeError
                   ''OpenAI authentication failed. Please verify that your OPENAI_API_KEY is correct and active.''), n')
            | (OtherException e, n') \<Rightarrow> (Inl (Raised e), n')))"

text \<open>\<open>screen_qna_snap.py\<close>, \<open>ask_ai\<close>.\<close>

definition ask_ai ::
  "ustring option \<Rightarrow> 'w service \<Rightarrow> 'w net \<Rightarrow> ustring \<Rightarrow> (exn + ustring) \<times> 'w net" where
  "ask_ai key svc n question =
     (if no_key key
      then (Inl (RuntimeError ''OPENAI_API_KEY env var not set''), n)
      else (case send svc n question of
              (Content c, n') \<Rightarrow> (Inr (strip c), n')
            | (AuthenticationError e, n') \<Rightarrow> (Inl (Raised e), n')
            | (OtherException e, n') \<Rightarrow> (Inl (Raised e), n')))"

section \<open>The three programs\<close>

text \<open>
  \<open>screen_qna.py\<close>, \<open>main\<close>: the body of the \<open>for\<close> loop, one capture, and the
  \<open>while\<close> loop over the texts that the successive captures give; the loop ends after
  the first capture with \<open>--once\<close> and otherwise when the interrupt arrives, which is
  where the list of texts ends.
\<close>

datatype printed = QuestionDetected ustring | Answer ustring | ErrorWhileQuerying exn

record 'w run =
  seen :: "ustring set"
  net :: "'w net"
  out :: "printed list"

definition ask_one :: "ustring option \<Rightarrow> 'w service \<Rightarrow> 'w run \<Rightarrow> ustring \<Rightarrow> 'w run" where
  "ask_one api_key svc st q =
     (if q \<in> seen st then st
      else (case query_openai api_key svc (net st) q of
              (Inr answer, n') \<Rightarrow>
                st\<lparr>seen := insert q (seen st), net := n',
                   out := out st @ [QuestionDetected q, Answer answer]\<rparr>
            | (Inl e, n') \<Rightarrow>
                st\<lparr>net := n', out := out st @ [QuestionDetected q, ErrorWhileQuerying e]\<rparr>))"

definition capture_cycle :: "ustring option \<Rightarrow> 'w service \<Rightarrow> 'w run \<Rightarrow> ustring \<Rightarrow> 'w run" where
  "capture_cycle api_key svc st text = foldl (ask_one api_key svc) st (extract_questions text)"

fun main_loop :: "ustring option \<Rightarrow> 'w service \<Rightarrow> bool \<Rightarrow> 'w run \<Rightarrow> ustring list \<Rightarrow> 'w run" where
  "main_loop api_key svc once st [] = st"
| "main_loop api_key svc once st (text # later) =
     (let st' = capture_cycle api_key svc st text
      in if once then st' else main_loop api_key svc once st' later)"

definition run0 :: "'w \<Rightarrow> 'w run" where
  "run0 w = \<lparr>seen = {}, net = \<lparr>remote = w, requests = []\<rparr>, out = []\<rparr>"

text \<open>
  \<open>screen_qna_gui.py\<close>, \<open>run_ocr_and_answer\<close>, from the text that the recognizer
  returned: what the window shows at the end, and the network.
\<close>

datatype shown = Formatted ustring | Clipboard ustring | InfoBox ustring | ErrorBox exn

definition run_ocr_and_answer ::
  "(nat \<Rightarrow> bool) \<Rightarrow> ustring option \<Rightarrow> 'w service \<Rightarrow> 'w net \<Rightarrow> ustring \<Rightarrow> shown list \<times> 'w net" where
  "run_ocr_and_answer nd api_key svc n text =
     (let question_only = extract_question text
      in case query_openai_gui api_key svc n question_only of
           (Inr answer, n') \<Rightarrow>
             (let formatted = format_answer nd text answer
              in ([Formatted ([46, 46, 46, 46, 46, 10] @ formatted), Clipboard formatted,
                   InfoBox answer], n'))
         | (Inl e, n') \<Rightarrow> ([ErrorBox e], n'))"

text \<open>
  \<open>screen_qna_snap.py\<close>, \<open>main\<close>: one pass of the loop after a region was selected,
  from the raw text of the recognizer.
\<close>

datatype snapped = NoTextDetected | Answered ustring | Error exn

definition snap_once ::
  "ustring option \<Rightarrow> 'w service \<Rightarrow> 'w net \<Rightarrow> ustring \<Rightarrow> snapped \<times> 'w net" where
  "snap_once key svc n raw =
     (let text = strip raw
      in if text = [] then (NoTextDetected, n)
         else (case ask_ai key svc n text of
                 (Inr answer, n') \<Rightarrow> (Answered answer, n')
               | (Inl e, n') \<Rightarrow> (Error e, n')))"

section \<open>Notions of the specification\<close>

text \<open>
  A well-formed Latin question sentence: a run of at least four characters without
  \<open>?\<close> that begins with an uppercase Latin letter, followed by \<open>?\<close>.
\<close>

definition well_formed :: "ustring \<Rightarrow> bool" where
  "well_formed s \<longleftrightarrow>
     s \<noteq> [] \<and> last s = qmark \<and>
     (let run = butlast s in 4 \<le> length run \<and> qmark \<notin> set run \<and> is_upper (hd run))"

text \<open>
  A text that contains the sentences \<open>s\<^sub>1, \<dots>, s\<^sub>N\<close> one after the other without
  overlap: \<open>g\<^sub>0 s\<^sub>1 g\<^sub>1 \<dots> s\<^sub>N g\<^sub>N\<close>, with any filler \<open>g\<^sub>i\<close> between them.
\<close>

fun assemble :: "ustring \<Rightarrow> (ustring \<times> ustring) list \<Rightarrow> ustring" where
  "assemble g [] = g"
| "assemble g ((s, g') # others) = g @ s @ assemble g' others"

text \<open>
  No match of the extractor's pattern begins inside the filler \<open>g\<close> when \<open>follow\<close> is
  the text after it.
\<close>

fun silent :: "ustring \<Rightarrow> ustring \<Rightarrow> bool" where
  "silent [] follow = True"
| "silent (c # g) follow = (question_at (c # g @ follow) = None \<and> silent g follow)"

fun filler_ok :: "ustring \<Rightarrow> (ustring \<times> ustring) list \<Rightarrow> bool" where
  "filler_ok g [] = silent g []"
| "filler_ok g ((s, g') # others) = (silent g (s @ assemble g' others) \<and> filler_ok g' others)"

text \<open>Each element once, at the place of its first occurrence.\<close>

fun first_occurrences :: "'a list \<Rightarrow> 'a list" where
  "first_occurrences [] = []"
| "first_occurrences (x # xs) = x # filter (\<lambda>y. y \<noteq> x) (first_occurrences xs)"

text \<open>
  \<open>m\<close> is the first run of at least two characters without \<open>t\<close> followed by \<open>t\<close>, the
  terminator included: no such run starts further left.
\<close>

definition first_run :: "nat \<Rightarrow> ustring \<Rightarrow> ustring \<Rightarrow> bool" where
  "first_run t xs m \<longleftrightarrow>
     (\<exists>pre body post.
        xs = pre @ body @ [t] @ post \<and> m = body @ [t] \<and> 2 \<le> length body \<and> t \<notin> set body \<and>
        (\<forall>pre' body' post'.
           xs = pre' @ body' @ [t] @ post' \<and> 2 \<le> length body' \<and> t \<notin> set body'
           \<longrightarrow> length pre \<le> length pre'))"

fun is_motion :: "event \<Rightarrow> bool" where
  "is_motion (Motion x y) = True"
| "is_motion e = False"

text \<open>
  The ASCII digits: the part of the decimal-digit table that the claims name, used
  where an example needs a table.
\<close>

definition ascii_digit :: "nat \<Rightarrow> bool" where
  "ascii_digit c \<longleftrightarrow> 48 \<le> c \<and> c \<le> 57"

text \<open>
  A decimal digit is neither white space nor a percent sign; every Unicode database
  satisfies this.
\<close>

definition plain_digits :: "(nat \<Rightarrow> bool) \<Rightarrow> bool" where
  "plain_digits nd \<longleftrightarrow> (\<forall>c. nd c \<longrightarrow> \<not> is_space c \<and> \<not> percent_class c)"

text \<open>
  The prefix that the specification asks for: the Arabic one exactly when the source
  text has a character of the Arabic block U+0600..U+06FF.
\<close>

definition prefix_for :: "ustring \<Rightarrow> ustring" where
  "prefix_for src =
     (if \<exists>ch\<in>set src. 1536 \<le> ch \<and> ch \<le> 1791 then arabic_prefix else answer_prefix)"

text \<open>
  The answer begins with a numeric token followed by white space: digits, an optional
  percent sign of either script, white space.
\<close>

definition begins_with_token :: "(nat \<Rightarrow> bool) \<Rightarrow> ustring \<Rightarrow> bool" where
  "begins_with_token nd answer \<longleftrightarrow>
     (\<exists>ds pct ws rest.
        answer = ds @ pct @ ws @ rest \<and> ds \<noteq> [] \<and> (\<forall>c\<in>set ds. digit_class nd c) \<and>
        (pct = [] \<or> pct = [37] \<or> pct = [1642]) \<and> ws \<noteq> [] \<and> (\<forall>c\<in>set ws. is_space c))"

text \<open>The exception of \<open>query_openai\<close> for a missing credential.\<close>

definition missing_key_error :: exn where
  "missing_key_error = RuntimeError ''OPENAI_API_KEY environment variable not set.''"

text \<open>The prompts handed to the client library between two states of the network.\<close>

definition new_requests :: "'w net \<Rightarrow> 'w net \<Rightarrow> ustring list" where
  "new_requests before after = drop (length (requests before)) (requests after)"

text \<open>
  What one capture prints when every query fails with \<open>e\<close>: each question that is not
  in \<open>known\<close>, followed by the error.
\<close>

definition reports :: "ustring set \<Rightarrow> exn \<Rightarrow> ustring \<Rightarrow> printed list" where
  "reports known e src =
     concat (map (\<lambda>q. [QuestionDetected q, ErrorWhileQuerying e])
               (filter (\<lambda>q. q \<notin> known) (extract_questions src)))"

text \<open>
  The chain as the claim words it: the second link is the first match in the Latin
  style of the specification, the pattern of \<open>extract_questions\<close> with its uppercase
  first letter and its four characters before the terminator.
\<close>

definition chain_as_claimed :: "ustring \<Rightarrow> ustring" where
  "chain_as_claimed txt =
     (case search (run_at arabic_qmark) txt of
        Some m \<Rightarrow> strip m
      | None \<Rightarrow>
          (case search question_at txt of
             Some m \<Rightarrow> strip m
           | None \<Rightarrow> strip txt))"

text \<open>
  What the queries for the questions \<open>qs\<close> return, one after the other, from the
  network state \<open>n\<close>; and the outcomes of one capture: those of its questions that
  are not in the seen set when the capture begins.
\<close>

fun outcomes ::
  "ustring option \<Rightarrow> 'w service \<Rightarrow> 'w net \<Rightarrow> ustring list \<Rightarrow> (ustring \<times> (exn + ustring)) list" where
  "outcomes key svc n [] = []"
| "outcomes key svc n (q # qs) =
     (q, fst (query_openai key svc n q)) # outcomes key svc (snd (query_openai key svc n q)) qs"

definition capture_outcomes ::
  "ustring option \<Rightarrow> 'w service \<Rightarrow> 'w run \<Rightarrow> ustring \<Rightarrow> (ustring \<times> (exn + ustring)) list" where
  "capture_outcomes key svc st src =
     outcomes key svc (net st) (filter (\<lambda>q. q \<notin> seen st) (extract_questions src))"

text \<open>What is printed for a question and the outcome of its query.\<close>

fun report_of :: "ustring \<times> (exn + ustring) \<Rightarrow> printed list" where
  "report_of (q, Inr a) = [QuestionDetected q, Answer a]"
| "report_of (q, Inl e) = [QuestionDetected q, ErrorWhileQuerying e]"

text \<open>
  A service for the examples: its state counts the calls; the first call raises, the
  later ones answer.
\<close>

definition flaky :: "nat service" where
  "flaky w q = (if w = 0 then OtherException [100, 111, 119, 110] else Content [32, 111, 107, 10], Suc w)"

section \<open>Facts about the patterns\<close>

lemma run_until_Some_iff:
  "run_until t k acc xs = Some (m, rest) \<longleftrightarrow>
     (\<exists>body. xs = body @ t # rest \<and> t \<notin> set body \<and> k \<le> length body \<and> m = acc @ body @ [t])"
proof (induction xs arbitrary: k acc)
  case Nil
  then show ?case by simp
next
  case (Cons x xs)
  show ?case
  proof (cases "x = t")
    case True
    have "(\<exists>body. x # xs = body @ t # rest \<and> t \<notin> set body \<and> k \<le> length body \<and> m = acc @ body @ [t])
          \<longleftrightarrow> (xs = rest \<and> k = 0 \<and> m = acc @ [t])"
    proof
      assume "\<exists>body. x # xs = body @ t # rest \<and> t \<notin> set body \<and> k \<le> length body \<and> m = acc @ body @ [t]"
      then obtain body where b: "x # xs = body @ t # rest" "t \<notin> set body" "k \<le> length body" "m = acc @ body @ [t]"
        by blast
      have "body = []" using b(1,2) True by (cases body) auto
      with b show "xs = rest \<and> k = 0 \<and> m = acc @ [t]" by simp
    next
      assume "xs = rest \<and> k = 0 \<and> m = acc @ [t]"
      then show "\<exists>body. x # xs = body @ t # rest \<and> t \<notin> set body \<and> k \<le> length body \<and> m = acc @ body @ [t]"
        using True by (intro exI [of _ "[]"]) simp
    qed
    with True show ?thesis by auto
  next
    case False
    have "(\<exists>body. x # xs = body @ t # rest \<and> t \<notin> set body \<and> k \<le> length body \<and> m = acc @ body @ [t])
          \<longleftrightarrow> (\<exists>body'. xs = body' @ t # rest \<and> t \<notin> set body' \<and> k - 1 \<le> length body' \<and> m = (acc @ [x]) @ body' @ [t])"
    proof
      assume "\<exists>body. x # xs = body @ t # rest \<and> t \<notin> set body \<and> k \<le> length body \<and> m = acc @ body @ [t]"
      then obtain body where b: "x # xs = body @ t # rest" "t \<notin> set body" "k \<le> length body" "m = acc @ body @ [t]"
        by blast
      from b(1) False obtain body' where "body = x # body'" by (cases body) auto
      with b show "\<exists>body'. xs = body' @ t # rest \<and> t \<notin> set body' \<and> k - 1 \<le> length body' \<and> m = (acc @ [x]) @ body' @ [t]"
        by (intro exI [of _ body']) auto
    next
      assume "\<exists>body'. xs = body' @ t # rest \<and> t \<notin> set body' \<and> k - 1 \<le> length body' \<and> m = (acc @ [x]) @ body' @ [t]"
      then obtain body' where b: "xs = body' @ t # rest" "t \<notin> set body'" "k - 1 \<le> length body'" "m = (acc @ [x]) @ body' @ [t]"
        by blast
      then show "\<exists>body. x # xs = body @ t # rest \<and> t \<notin> set body \<and> k \<le> length body \<and> m = acc @ body @ [t]"
        using False by (intro exI [of _ "x # body'"]) auto
    qed
    with False Cons.IH [of "k - 1" "acc @ [x]"] show ?thesis by simp
  qed
qed

lemma run_until_None: "t \<notin> set xs \<Longrightarrow> run_until t k acc xs = None"
  by (induction xs arbitrary: k acc) auto

lemma question_at_Some_iff:
  "question_at xs = Some (m, rest) \<longleftrightarrow>
     (\<exists>c body. xs = c # body @ qmark # rest \<and> is_upper c \<and> qmark \<notin> set body \<and>
        3 \<le> length body \<and> m = c # body @ [qmark])"
  by (cases xs) (auto simp: run_until_Some_iff)

lemma question_at_None: "qmark \<notin> set xs \<Longrightarrow> question_at xs = None"
  by (cases xs) (auto simp: run_until_None)

lemma findall_no_qmark: "qmark \<notin> set xs \<Longrightarrow> findall xs = []"
  by (induction xs) (auto simp: run_until_None)

lemma findall_elem:
  "m \<in> set (findall xs) \<Longrightarrow>
     \<exists>c body. m = c # body @ [qmark] \<and> is_upper c \<and> qmark \<notin> set body \<and> 3 \<le> length body"
proof (induction xs rule: findall.induct)
  case 1
  then show ?case by simp
next
  case (2 c cs)
  show ?case
  proof (cases "question_at (c # cs)")
    case None
    with 2 show ?thesis by simp
  next
    case (Some a)
    obtain m' rest where a: "a = (m', rest)" by (cases a)
    with Some 2 have "m = m' \<or> m \<in> set (findall rest)" by simp
    then show ?thesis
    proof
      assume "m = m'"
      with Some a show ?thesis using question_at_Some_iff [of "c # cs" m' rest] by blast
    next
      assume "m \<in> set (findall rest)"
      with 2 Some a show ?thesis by simp
    qed
  qed
qed

lemma dropWhile_id: "s \<noteq> [] \<Longrightarrow> \<not> P (hd s) \<Longrightarrow> dropWhile P s = s"
  by (cases s) auto

lemma strip_id: "s \<noteq> [] \<Longrightarrow> \<not> is_space (hd s) \<Longrightarrow> \<not> is_space (last s) \<Longrightarrow> strip s = s"
  by (simp add: strip_def dropWhile_id hd_rev)

lemma not_space_qmark: "\<not> is_space qmark" "\<not> is_space arabic_qmark"
  by (simp_all add: is_space_def)

lemma upper_not_space: "is_upper c \<Longrightarrow> \<not> is_space c"
  by (auto simp: is_upper_def is_space_def)

lemma strip_question: "is_upper c \<Longrightarrow> strip (c # body @ [qmark]) = c # body @ [qmark]"
  by (rule strip_id) (simp_all add: upper_not_space not_space_qmark)

lemma map_strip_findall: "map strip (findall xs) = findall xs"
  by (rule map_idI) (auto dest!: findall_elem simp: strip_question simp del: append.simps)

lemma foldl_fromkeys:
  "foldl (\<lambda>d k. if k \<in> set d then d else d @ [k]) d xs
     = d @ filter (\<lambda>y. y \<notin> set d) (first_occurrences xs)"
proof (induction xs arbitrary: d)
  case Nil
  then show ?case by simp
next
  case (Cons x xs)
  show ?case
  proof (cases "x \<in> set d")
    case True
    then show ?thesis by (auto simp: Cons.IH intro!: filter_cong)
  next
    case False
    then show ?thesis by (auto simp: Cons.IH intro!: filter_cong)
  qed
qed

lemma fromkeys_first_occurrences: "fromkeys xs = first_occurrences xs"
  by (simp add: fromkeys_def foldl_fromkeys)

lemma set_first_occurrences: "set (first_occurrences xs) = set xs"
  by (induction xs) auto

lemma distinct_first_occurrences: "distinct (first_occurrences xs)"
  by (induction xs) auto

lemma extract_questions_eq: "extract_questions text = first_occurrences (findall text)"
  by (simp add: extract_questions_def map_strip_findall fromkeys_first_occurrences)

section \<open>The Latin multi-match extractor\<close>

text \<open>
  Claim C9. A text with neither the Latin \<open>?\<close> nor the Arabic question mark gives
  the empty list of questions.
\<close>

theorem extract_questions_no_terminator:
  "qmark \<notin> set text \<Longrightarrow> arabic_qmark \<notin> set text \<Longrightarrow> extract_questions text = []"
  by (simp add: extract_questions_eq findall_no_qmark)

theorem extract_questions_no_terminator_witness:
  "qmark \<notin> set [119, 104, 121, 32, 110, 111, 116] \<and>
   arabic_qmark \<notin> set [119, 104, 121, 32, 110, 111, 116] \<and>
   extract_questions [119, 104, 121, 32, 110, 111, 116] = []"
  using extract_questions_no_terminator [of "[119, 104, 121, 32, 110, 111, 116]"] by simp

text \<open>
  Claim C10. Every string that \<open>extract_questions\<close> returns begins with an uppercase
  ASCII letter, ends with \<open>?\<close>, has no other \<open>?\<close>, and has at least four characters
  before the terminator, five in all; \<open>Abc?\<close> is never returned.
\<close>

theorem extract_questions_shape:
  "q \<in> set (extract_questions text) \<Longrightarrow>
     is_upper (hd q) \<and> last q = qmark \<and> qmark \<notin> set (butlast q) \<and> 5 \<le> length q \<and>
     4 \<le> length (butlast q) \<and> q \<noteq> [65, 98, 99, qmark]"
proof -
  assume "q \<in> set (extract_questions text)"
  then have "q \<in> set (findall text)"
    by (simp add: extract_questions_eq set_first_occurrences)
  then obtain c body where q: "q = c # body @ [qmark]" "is_upper c" "qmark \<notin> set body" "3 \<le> length body"
    using findall_elem by blast
  have "butlast q = c # body" using q(1) by (simp add: butlast_append)
  moreover have "qmark \<noteq> c" using q(2) by (auto simp: is_upper_def)
  ultimately show ?thesis using q by auto
qed

theorem extract_questions_shape_witness:
  "[65, 98, 99, 100, qmark] \<in> set (extract_questions [120, 65, 98, 99, 100, qmark, 65, 98, 99, qmark]) \<and>
   is_upper (hd [65, 98, 99, 100, qmark]) \<and> 5 \<le> length [65, 98, 99, 100, qmark :: nat] \<and>
   extract_questions [120, 65, 98, 99, 100, qmark, 65, 98, 99, qmark] = [ [65, 98, 99, 100, qmark]]"
proof -
  have h: "[65, 98, 99, 100, qmark] \<in> set (extract_questions [120, 65, 98, 99, 100, qmark, 65, 98, 99, qmark])"
    by (simp add: extract_questions_def fromkeys_def strip_def is_upper_def is_space_def)
  have e: "extract_questions [120, 65, 98, 99, 100, qmark, 65, 98, 99, qmark] = [ [65, 98, 99, 100, qmark]]"
    by (simp add: extract_questions_def fromkeys_def strip_def is_upper_def is_space_def)
  show ?thesis using extract_questions_shape [OF h] h e by simp
qed

lemma findall_silent: "silent g follow \<Longrightarrow> findall (g @ follow) = findall follow"
  by (induction g) auto

lemma silent_no_upper: "\<forall>c\<in>set g. \<not> is_upper c \<Longrightarrow> silent g follow"
  by (induction g) auto

lemma well_formed_question_at:
  assumes "well_formed s"
  shows "question_at (s @ follow) = Some (s, follow)"
proof -
  from assms have s: "s \<noteq> []" "last s = qmark" "4 \<le> length (butlast s)"
    "qmark \<notin> set (butlast s)" "is_upper (hd (butlast s))"
    by (simp_all add: well_formed_def Let_def)
  from s(3) obtain c body where run: "butlast s = c # body" by (cases "butlast s") auto
  from s(1,2) have "s = butlast s @ [qmark]" by (metis append_butlast_last_id)
  with run have eq: "s = c # body @ [qmark]" by simp
  have "question_at ((c # body @ [qmark]) @ follow) = Some (c # body @ [qmark], follow)"
    unfolding question_at_Some_iff using s(3,4,5) run by auto
  with eq show ?thesis by simp
qed

lemma well_formed_strip:
  assumes "well_formed s"
  shows "strip s = s"
proof -
  from assms have s: "s \<noteq> []" "last s = qmark" "4 \<le> length (butlast s)"
    "is_upper (hd (butlast s))"
    by (simp_all add: well_formed_def Let_def)
  from s(3) obtain c body where run: "butlast s = c # body" by (cases "butlast s") auto
  from s(1,2) have "s = butlast s @ [qmark]" by (metis append_butlast_last_id)
  with run have "s = c # body @ [qmark]" by simp
  moreover have "is_upper c" using s(4) run by simp
  ultimately show ?thesis by (simp only: strip_question)
qed

lemma findall_well_formed:
  assumes "well_formed s"
  shows "findall (s @ follow) = s # findall follow"
proof -
  from assms have "s \<noteq> []" by (simp add: well_formed_def)
  then obtain c cs where "s @ follow = c # cs" by (cases s) auto
  moreover have "question_at (s @ follow) = Some (s, follow)"
    using assms by (rule well_formed_question_at)
  ultimately show ?thesis by simp
qed

lemma findall_assemble:
  "\<forall>(s, g')\<in>set ps. well_formed s \<Longrightarrow> filler_ok g ps \<Longrightarrow> findall (assemble g ps) = map fst ps"
proof (induction ps arbitrary: g)
  case Nil
  then show ?case using findall_silent [of g "[]"] by simp
next
  case (Cons p ps)
  obtain s g' where p: "p = (s, g')" by (cases p)
  from Cons.prems p have wf: "well_formed s" and rest: "\<forall>(s, g')\<in>set ps. well_formed s"
    and sil: "silent g (s @ assemble g' ps)" and ok: "filler_ok g' ps"
    by auto
  have "findall (assemble g (p # ps)) = findall (s @ assemble g' ps)"
    using p findall_silent [OF sil] by simp
  also have "\<dots> = s # findall (assemble g' ps)" using wf by (rule findall_well_formed)
  also have "\<dots> = s # map fst ps" using Cons.IH [OF rest ok] by simp
  finally show ?case using p by simp
qed

text \<open>
  Claim C1, as stated: whenever a text contains \<open>N\<close> well-formed sentences one after
  the other, with anything between them, \<open>extract_questions\<close> returns those sentences,
  each once, in the order of first appearance. This fails: in \<open>Ok. Why not?\<close> the
  well-formed sentence \<open>Why not?\<close> follows the filler \<open>Ok. \<close>, and the extractor
  returns \<open>Ok. Why not?\<close>, because a match begins at the first uppercase letter that
  has three characters without \<open>?\<close> after it.
\<close>

theorem extract_questions_sentences_counterexample:
  "well_formed [87, 104, 121, 32, 110, 111, 116, qmark] \<and>
   extract_questions (assemble [79, 107, 46, 32] [([87, 104, 121, 32, 110, 111, 116, qmark], [])])
     = [ [79, 107, 46, 32, 87, 104, 121, 32, 110, 111, 116, qmark]] \<and>
   extract_questions (assemble [79, 107, 46, 32] [([87, 104, 121, 32, 110, 111, 116, qmark], [])])
     \<noteq> first_occurrences (map strip [ [87, 104, 121, 32, 110, 111, 116, qmark]])"
  by (simp add: well_formed_def extract_questions_def fromkeys_def strip_def is_upper_def is_space_def)

text \<open>
  Claim C1, amended. When the text is \<open>g\<^sub>0 s\<^sub>1 g\<^sub>1 \<dots> s\<^sub>N g\<^sub>N\<close> with well-formed
  sentences \<open>s\<^sub>i\<close> and no match of the pattern begins inside a filler \<open>g\<^sub>i\<close> (as when
  the fillers have no uppercase Latin letter, \<open>silent_no_upper\<close>), the extractor returns
  exactly the sentences, which trimming leaves as they are, in the order of first
  appearance, each once: a later verbatim repetition is dropped.
\<close>

theorem extract_questions_sentences:
  "\<forall>(s, g')\<in>set ps. well_formed s \<Longrightarrow> filler_ok g ps \<Longrightarrow>
     extract_questions (assemble g ps) = first_occurrences (map fst ps) \<and>
     map strip (map fst ps) = map fst ps \<and>
     distinct (extract_questions (assemble g ps)) \<and>
     set (extract_questions (assemble g ps)) = fst ` set ps"
proof -
  assume wf: "\<forall>(s, g')\<in>set ps. well_formed s" and ok: "filler_ok g ps"
  have 1: "extract_questions (assemble g ps) = first_occurrences (map fst ps)"
    by (simp add: extract_questions_eq findall_assemble [OF wf ok])
  have 2: "map strip (map fst ps) = map fst ps"
  proof (rule map_idI)
    fix x assume "x \<in> set (map fst ps)"
    then have "well_formed x" using wf by auto
    then show "strip x = x" by (rule well_formed_strip)
  qed
  have 3: "distinct (extract_questions (assemble g ps))"
    by (simp add: 1 distinct_first_occurrences)
  have 4: "set (extract_questions (assemble g ps)) = fst ` set ps"
    by (simp add: 1 set_first_occurrences)
  from 1 2 3 4 show ?thesis by blast
qed

theorem extract_questions_sentences_witness:
  "well_formed [73, 115, 32, 105, 116, 32, 111, 107, qmark] \<and>
   well_formed [87, 104, 121, 32, 110, 111, 116, qmark] \<and>
   filler_ok [115, 111, 58, 32]
     [([73, 115, 32, 105, 116, 32, 111, 107, qmark], [32, 110, 111, qmark, 32]),
      ([87, 104, 121, 32, 110, 111, 116, qmark], [32]),
      ([73, 115, 32, 105, 116, 32, 111, 107, qmark], [])] \<and>
   extract_questions (assemble [115, 111, 58, 32]
     [([73, 115, 32, 105, 116, 32, 111, 107, qmark], [32, 110, 111, qmark, 32]),
      ([87, 104, 121, 32, 110, 111, 116, qmark], [32]),
      ([73, 115, 32, 105, 116, 32, 111, 107, qmark], [])])
     = [ [73, 115, 32, 105, 116, 32, 111, 107, qmark], [87, 104, 121, 32, 110, 111, 116, qmark]]"
proof -
  let ?ps = "[([73, 115, 32, 105, 116, 32, 111, 107, qmark], [32, 110, 111, qmark, 32]),
      ([87, 104, 121, 32, 110, 111, 116, qmark], [32]),
      ([73, 115, 32, 105, 116, 32, 111, 107, qmark :: nat], [] :: ustring)]"
  have wf: "\<forall>(s, g')\<in>set ?ps. well_formed s"
    by (simp add: well_formed_def is_upper_def)
  have ok: "filler_ok [115, 111, 58, 32] ?ps"
    by (simp add: is_upper_def)
  have s1: "well_formed [73, 115, 32, 105, 116, 32, 111, 107, qmark]"
    and s2: "well_formed [87, 104, 121, 32, 110, 111, 116, qmark]"
    by (simp_all add: well_formed_def is_upper_def)
  show ?thesis
    using extract_questions_sentences [OF wf ok] s1 s2 ok by simp
qed

section \<open>The fallback-chain extractor\<close>

lemma run_at_Some_iff:
  "run_at t xs = Some (m, rest) \<longleftrightarrow>
     (\<exists>body. xs = body @ t # rest \<and> t \<notin> set body \<and> 2 \<le> length body \<and> m = body @ [t])"
  by (simp add: run_at_def run_until_Some_iff)

lemma search_Some:
  "search p xs = Some m \<Longrightarrow>
     \<exists>pre suf rest. xs = pre @ suf \<and> p suf = Some (m, rest) \<and> (\<forall>k<length pre. p (drop k xs) = None)"
proof (induction xs)
  case Nil
  then obtain rest where "p [] = Some (m, rest)" by auto
  then show ?case by simp
next
  case (Cons c cs)
  show ?case
  proof (cases "p (c # cs)")
    case None
    with Cons.prems have "search p cs = Some m" by simp
    from Cons.IH [OF this] obtain pre suf rest where
      h: "cs = pre @ suf" "p suf = Some (m, rest)" "\<forall>k<length pre. p (drop k cs) = None"
      by blast
    have "\<forall>k<length (c # pre). p (drop k (c # cs)) = None"
    proof (intro allI impI)
      fix k assume "k < length (c # pre)"
      then show "p (drop k (c # cs)) = None" using None h(3) by (cases k) auto
    qed
    with h(1,2) have "c # cs = (c # pre) @ suf \<and> p suf = Some (m, rest) \<and>
        (\<forall>k<length (c # pre). p (drop k (c # cs)) = None)" by simp
    then show ?thesis by blast
  next
    case (Some a)
    obtain m' rest where "a = (m', rest)" by (cases a)
    with Some Cons.prems have "p (c # cs) = Some (m, rest)" by simp
    then have "c # cs = [] @ (c # cs) \<and> p (c # cs) = Some (m, rest) \<and>
        (\<forall>k<length ([] :: ustring). p (drop k (c # cs)) = None)" by simp
    then show ?thesis by blast
  qed
qed

lemma search_None: "search p xs = None \<Longrightarrow> p (drop k xs) = None"
proof (induction xs arbitrary: k)
  case Nil
  then show ?case by simp
next
  case (Cons c cs)
  from Cons.prems have here: "p (c # cs) = None" and later: "search p cs = None"
    by (auto split: option.splits)
  show ?case using here Cons.IH [OF later] by (cases k) auto
qed

lemma run_at_decomposition:
  "2 \<le> length body \<Longrightarrow> t \<notin> set body \<Longrightarrow>
     run_at t (drop (length pre) (pre @ body @ [t] @ post)) = Some (body @ [t], post)"
  by (simp add: run_at_Some_iff)

lemma search_first_run:
  assumes "search (run_at t) xs = Some m"
  shows "first_run t xs m"
proof -
  from search_Some [OF assms] obtain pre suf rest where
    h: "xs = pre @ suf" "run_at t suf = Some (m, rest)" "\<forall>k<length pre. run_at t (drop k xs) = None"
    by blast
  from h(2) obtain body where
    b: "suf = body @ t # rest" "t \<notin> set body" "2 \<le> length body" "m = body @ [t]"
    unfolding run_at_Some_iff by blast
  have least: "length pre \<le> length pre'"
    if "xs = pre' @ body' @ [t] @ post'" "2 \<le> length body'" "t \<notin> set body'"
    for pre' body' post'
  proof (rule ccontr)
    assume "\<not> length pre \<le> length pre'"
    then have "run_at t (drop (length pre') xs) = None" using h(3) by simp
    moreover have "run_at t (drop (length pre') xs) = Some (body' @ [t], post')"
      unfolding that(1) using that(2,3) by (rule run_at_decomposition)
    ultimately show False by simp
  qed
  have "xs = pre @ body @ [t] @ rest" using h(1) b(1) by simp
  with b least show ?thesis unfolding first_run_def by blast
qed

lemma search_no_run:
  assumes "search (run_at t) xs = None"
  shows "\<not> (\<exists>m. first_run t xs m)"
proof
  assume "\<exists>m. first_run t xs m"
  then obtain pre body post where
    h: "xs = pre @ body @ [t] @ post" "2 \<le> length body" "t \<notin> set body"
    unfolding first_run_def by blast
  have "run_at t (drop (length pre) xs) = Some (body @ [t], post)"
    unfolding h(1) using h(2,3) by (rule run_at_decomposition)
  with search_None [OF assms, of "length pre"] show False by simp
qed

lemma takeWhile_until: "t \<notin> set body \<Longrightarrow> takeWhile (\<lambda>c. c \<noteq> t) (body @ t # post) = body"
  by (induction body) auto

lemma dropWhile_keeps: "c \<in> set xs \<Longrightarrow> \<not> P c \<Longrightarrow> c \<in> set (dropWhile P xs)"
  by (induction xs) auto

lemma first_run_unique:
  assumes "first_run t xs m" "first_run t xs m'"
  shows "m = m'"
proof -
  from assms(1) obtain pre body post where
    a: "xs = pre @ body @ [t] @ post" "m = body @ [t]" "2 \<le> length body" "t \<notin> set body"
    and la: "\<And>pre' body' post'. xs = pre' @ body' @ [t] @ post' \<Longrightarrow> 2 \<le> length body' \<Longrightarrow>
           t \<notin> set body' \<Longrightarrow> length pre \<le> length pre'"
    unfolding first_run_def by blast
  from assms(2) obtain pre' body' post' where
    b: "xs = pre' @ body' @ [t] @ post'" "m' = body' @ [t]" "2 \<le> length body'" "t \<notin> set body'"
    and lb: "\<And>pre body post. xs = pre @ body @ [t] @ post \<Longrightarrow> 2 \<le> length body \<Longrightarrow>
           t \<notin> set body \<Longrightarrow> length pre' \<le> length pre"
    unfolding first_run_def by blast
  have "length pre = length pre'"
    using la [OF b(1) b(3) b(4)] lb [OF a(1) a(3) a(4)] by simp
  with a(1) b(1) have "body @ t # post = body' @ t # post'" by simp
  then have "takeWhile (\<lambda>c. c \<noteq> t) (body @ t # post) = takeWhile (\<lambda>c. c \<noteq> t) (body' @ t # post')"
    by simp
  then have "body = body'" using a(4) b(4) by (simp add: takeWhile_until)
  with a(2) b(2) show ?thesis by simp
qed

lemma first_run_search: "first_run t xs m \<longleftrightarrow> search (run_at t) xs = Some m"
proof
  assume fr: "first_run t xs m"
  show "search (run_at t) xs = Some m"
  proof (cases "search (run_at t) xs")
    case None
    with search_no_run fr show ?thesis by blast
  next
    case (Some m')
    then have "first_run t xs m'" by (rule search_first_run)
    with fr have "m = m'" by (rule first_run_unique)
    with Some show ?thesis by simp
  qed
next
  assume "search (run_at t) xs = Some m"
  then show "first_run t xs m" by (rule search_first_run)
qed

lemma no_first_run_search: "(\<nexists>m. first_run t xs m) \<longleftrightarrow> search (run_at t) xs = None"
  using first_run_search [of t xs] by (cases "search (run_at t) xs") auto

text \<open>
  Claim C7, as stated: the second link of the chain is the first Latin-style match,
  and the Latin style of the specification is an uppercase first letter and at least
  four characters before \<open>?\<close>. This fails: the source's second pattern asks for two
  characters without \<open>?\<close> and for no uppercase letter. On \<open>xx ab? yy\<close> the extractor
  returns \<open>xx ab?\<close>, where the chain as claimed finds no match and gives the whole
  text; on \<open>so Is it ok? x\<close> it returns \<open>so Is it ok?\<close>, where the chain as claimed
  gives \<open>Is it ok?\<close>.
\<close>

theorem extract_question_chain_counterexample:
  "extract_question [120, 120, 32, 97, 98, 63, 32, 121, 121] = [120, 120, 32, 97, 98, 63] \<and>
   chain_as_claimed [120, 120, 32, 97, 98, 63, 32, 121, 121]
     = [120, 120, 32, 97, 98, 63, 32, 121, 121] \<and>
   extract_question [115, 111, 32, 73, 115, 32, 105, 116, 32, 111, 107, 63, 32, 120]
     = [115, 111, 32, 73, 115, 32, 105, 116, 32, 111, 107, 63] \<and>
   chain_as_claimed [115, 111, 32, 73, 115, 32, 105, 116, 32, 111, 107, 63, 32, 120]
     = [73, 115, 32, 105, 116, 32, 111, 107, 63] \<and>
   extract_question [120, 120, 32, 97, 98, 63, 32, 121, 121]
     \<noteq> chain_as_claimed [120, 120, 32, 97, 98, 63, 32, 121, 121]"
  by (simp add: extract_question_def chain_as_claimed_def run_at_def strip_def is_space_def
        is_upper_def)

text \<open>
  Claim C7, amended. \<open>extract_question\<close> returns, trimmed, the first run of at least
  two characters without the Arabic question mark followed by it, when there is one;
  otherwise the first run of at least two characters without the Latin \<open>?\<close> followed
  by \<open>?\<close>, with no condition on its first letter; otherwise the whole trimmed text;
  the three are tried in this order.
\<close>

theorem extract_question_chain:
  "(first_run arabic_qmark txt m \<longrightarrow> extract_question txt = strip m) \<and>
   ((\<nexists>m'. first_run arabic_qmark txt m') \<and> first_run qmark txt m
      \<longrightarrow> extract_question txt = strip m) \<and>
   ((\<nexists>m'. first_run arabic_qmark txt m') \<and> (\<nexists>m'. first_run qmark txt m')
      \<longrightarrow> extract_question txt = strip txt)"
  by (simp add: extract_question_def first_run_search no_first_run_search)

theorem extract_question_chain_witness:
  "first_run arabic_qmark [63, 97, 98, arabic_qmark, 32, 99, 100] [63, 97, 98, arabic_qmark] \<and>
   extract_question [63, 97, 98, arabic_qmark, 32, 99, 100] = [63, 97, 98, arabic_qmark] \<and>
   (\<nexists>m'. first_run arabic_qmark [32, 105, 115, 32, 105, 116, qmark, 32, 110, 111] m') \<and>
   first_run qmark [32, 105, 115, 32, 105, 116, qmark, 32, 110, 111] [32, 105, 115, 32, 105, 116, qmark] \<and>
   extract_question [32, 105, 115, 32, 105, 116, qmark, 32, 110, 111] = [105, 115, 32, 105, 116, qmark] \<and>
   (\<nexists>m'. first_run arabic_qmark [32, 80, 97, 114, 105, 115, 10] m') \<and>
   (\<nexists>m'. first_run qmark [32, 80, 97, 114, 105, 115, 10] m') \<and>
   extract_question [32, 80, 97, 114, 105, 115, 10] = [80, 97, 114, 105, 115]"
proof -
  have a: "first_run arabic_qmark [63, 97, 98, arabic_qmark, 32, 99, 100] [63, 97, 98, arabic_qmark]"
    by (simp add: first_run_search run_at_def)
  have b: "\<nexists>m'. first_run arabic_qmark [32, 105, 115, 32, 105, 116, qmark, 32, 110, 111] m'"
    unfolding no_first_run_search by (simp add: run_at_def)
  have c: "first_run qmark [32, 105, 115, 32, 105, 116, qmark, 32, 110, 111] [32, 105, 115, 32, 105, 116, qmark]"
    by (simp add: first_run_search run_at_def)
  have d: "\<nexists>m'. first_run arabic_qmark [32, 80, 97, 114, 105, 115, 10] m'"
    unfolding no_first_run_search by (simp add: run_at_def)
  have e: "\<nexists>m'. first_run qmark [32, 80, 97, 114, 105, 115, 10] m'"
    unfolding no_first_run_search by (simp add: run_at_def)
  have s1: "strip [63, 97, 98, arabic_qmark] = [63, 97, 98, arabic_qmark]"
    by (simp add: strip_def is_space_def)
  have s2: "strip [32, 105, 115, 32, 105, 116, qmark] = [105, 115, 32, 105, 116, qmark]"
    by (simp add: strip_def is_space_def)
  have s3: "strip [32, 80, 97, 114, 105, 115, 10] = [80, 97, 114, 105, 115]"
    by (simp add: strip_def is_space_def)
  show ?thesis
    using extract_question_chain [of "[63, 97, 98, arabic_qmark, 32, 99, 100]" "[63, 97, 98, arabic_qmark]"]
      extract_question_chain [of "[32, 105, 115, 32, 105, 116, qmark, 32, 110, 111]" "[32, 105, 115, 32, 105, 116, qmark]"]
      extract_question_chain [of "[32, 80, 97, 114, 105, 115, 10]" "[]"]
      a b c d e s1 s2 s3
    by metis
qed

lemma strip_nonempty: "\<exists>c\<in>set s. \<not> is_space c \<Longrightarrow> strip s \<noteq> []"
proof -
  assume "\<exists>c\<in>set s. \<not> is_space c"
  then obtain c where c: "c \<in> set s" "\<not> is_space c" by blast
  then have "c \<in> set (dropWhile is_space s)" by (rule dropWhile_keeps)
  then have "c \<in> set (rev (dropWhile is_space s))" by simp
  then have "c \<in> set (dropWhile is_space (rev (dropWhile is_space s)))"
    using c(2) by (rule dropWhile_keeps)
  then have "dropWhile is_space (rev (dropWhile is_space s)) \<noteq> []"
    by (cases "dropWhile is_space (rev (dropWhile is_space s))") simp_all
  then show ?thesis unfolding strip_def by (metis rev_is_Nil_conv)
qed

lemma search_run_ends:
  "search (run_at t) xs = Some m \<Longrightarrow> t \<in> set m"
  by (auto dest!: search_Some simp: run_at_Some_iff)

text \<open>
  Claim C2, as stated: a non-empty text gives a non-empty question. This fails on a
  text of white space only, such as a single space: no pattern matches and the final
  fallback trims the text to nothing.
\<close>

theorem extract_question_nonempty_counterexample:
  "[32] \<noteq> ([] :: ustring) \<and> extract_question [32] = []"
  by (simp add: extract_question_def run_at_def strip_def is_space_def)

text \<open>
  Claim C2, amended. A text with at least one character that is not white space gives
  a non-empty question.
\<close>

theorem extract_question_nonempty: "\<exists>c\<in>set txt. \<not> is_space c \<Longrightarrow> extract_question txt \<noteq> []"
proof -
  assume ne: "\<exists>c\<in>set txt. \<not> is_space c"
  show ?thesis
  proof (cases "search (run_at arabic_qmark) txt")
    case (Some m)
    then have "arabic_qmark \<in> set m" by (rule search_run_ends)
    then have "strip m \<noteq> []" using not_space_qmark(2) by (intro strip_nonempty) blast
    with Some show ?thesis by (simp add: extract_question_def)
  next
    case None
    show ?thesis
    proof (cases "search (run_at qmark) txt")
      case (Some m)
      then have "qmark \<in> set m" by (rule search_run_ends)
      then have "strip m \<noteq> []" using not_space_qmark(1) by (intro strip_nonempty) blast
      with None Some show ?thesis by (simp add: extract_question_def)
    next
      case None2: None
      with None ne show ?thesis by (simp add: extract_question_def strip_nonempty)
    qed
  qed
qed

theorem extract_question_nonempty_witness:
  "(\<exists>c\<in>set [32, 80, 97, 114, 105, 115, 10]. \<not> is_space c) \<and>
   extract_question [32, 80, 97, 114, 105, 115, 10] \<noteq> []"
proof -
  have h: "\<exists>c\<in>set [32, 80, 97, 114, 105, 115, 10]. \<not> is_space c"
    by (simp add: is_space_def)
  show ?thesis using extract_question_nonempty [OF h] h by simp
qed

section \<open>The region selector: normalisation\<close>

lemma handle_motion:
  "is_motion e \<Longrightarrow> sel (handle s e) = sel s \<and> destroyed (handle s e) = destroyed s"
  by (cases e) (auto split: option.splits)

lemma foldl_motions:
  "\<forall>e\<in>set drags. is_motion e \<Longrightarrow>
     sel (foldl handle s drags) = sel s \<and> destroyed (foldl handle s drags) = destroyed s"
  by (induction drags arbitrary: s) (auto simp: handle_motion)

lemma region_ordered:
  "select_region events = Some (x1, y1, x2, y2) \<Longrightarrow> x1 \<le> x2 \<and> y1 \<le> y2"
  by (auto simp: select_region_def Let_def split: if_splits)

text \<open>
  Claim C8. A press at \<open>(a, b)\<close>, any pointer motion, and a release at \<open>(c, d)\<close> give
  the rectangle \<open>(min a c, min b d, max a c, max b d)\<close>, so that \<open>x1 \<le> x2\<close> and
  \<open>y1 \<le> y2\<close> whatever the direction of the drag; from \<open>(100, 100)\<close> to \<open>(10, 10)\<close>
  the rectangle is \<open>(10, 10, 100, 100)\<close>.
\<close>

theorem select_region_normalized:
  "(\<forall>e\<in>set drags. is_motion e) \<Longrightarrow>
     select_region (ButtonPress a b # drags @ [ButtonRelease c d])
       = Some (min a c, min b d, max a c, max b d) \<and>
     min a c \<le> max a c \<and> min b d \<le> max b d"
proof -
  assume m: "\<forall>e\<in>set drags. is_motion e"
  define s1 where "s1 = handle selector0 (ButtonPress a b)"
  define s2 where "s2 = foldl handle s1 drags"
  define s3 where "s3 = handle s2 (ButtonRelease c d)"
  have 1: "sel s1 = [''x1'' \<mapsto> a, ''y1'' \<mapsto> b]" "\<not> destroyed s1"
    by (simp_all add: s1_def selector0_def)
  have 2: "sel s2 = [''x1'' \<mapsto> a, ''y1'' \<mapsto> b]" "\<not> destroyed s2"
    using foldl_motions [OF m, of s1] 1 by (simp_all add: s2_def)
  have 3: "sel s3 = [''x1'' \<mapsto> a, ''y1'' \<mapsto> b, ''x2'' \<mapsto> c, ''y2'' \<mapsto> d]"
    using 2 by (simp add: s3_def)
  have run: "foldl handle selector0 (ButtonPress a b # drags @ [ButtonRelease c d]) = s3"
    by (simp add: s1_def s2_def s3_def)
  have "select_region (ButtonPress a b # drags @ [ButtonRelease c d])
          = Some (min a c, min b d, max a c, max b d)"
    unfolding select_region_def run by (simp add: 3)
  moreover have "min a c \<le> max a c" "min b d \<le> max b d"
    by (simp_all add: min_def max_def)
  ultimately show ?thesis by simp
qed

theorem select_region_normalized_witness:
  "is_motion (Motion 60 70) \<and> is_motion (Motion 20 5) \<and>
   select_region [ButtonPress 100 100, Motion 60 70, Motion 20 5, ButtonRelease 10 10]
     = Some (10, 10, 100, 100)"
  using select_region_normalized [of "[Motion 60 70, Motion 20 5]" 100 100 10 10] by simp

section \<open>The answer formatter: prefix and numeric token\<close>

lemma prefix_for_list_ex:
  "prefix_for src = (if list_ex is_arabic_char src then arabic_prefix else answer_prefix)"
  by (simp add: prefix_for_def list_ex_iff is_arabic_char_def)

lemma format_answer_eq:
  "format_answer nd src answer =
     (case digits_plus nd [] answer of
        Some (n, b) \<Rightarrow> strip (n @ [32] @ prefix_for src @ b)
      | None \<Rightarrow> strip ([32] @ prefix_for src @ answer))"
  by (simp add: format_answer_def prefix_for_list_ex split: option.splits)

lemma digit_class_plain:
  "plain_digits nd \<Longrightarrow> digit_class nd c \<Longrightarrow> \<not> is_space c \<and> \<not> percent_class c"
  by (auto simp: plain_digits_def digit_class_def is_space_def percent_class_def)

lemma space_not_percent: "is_space c \<Longrightarrow> \<not> percent_class c"
  by (auto simp: is_space_def percent_class_def)

lemma dropWhile_all: "\<forall>c\<in>set ws. P c \<Longrightarrow> body = [] \<or> \<not> P (hd body) \<Longrightarrow> dropWhile P (ws @ body) = body"
  by (induction ws) (cases body; auto)+

lemma after_token_spaces:
  assumes "ws \<noteq> []" "\<forall>c\<in>set ws. is_space c" "body \<noteq> []" "\<not> is_space (hd body)"
    "newline \<notin> set body"
  shows "after_token num (ws @ body) = Some (num, body)"
proof -
  have "is_space (hd (ws @ body))" using assms(1,2) by (cases ws) auto
  moreover have "dropWhile is_space (ws @ body) = body"
    using assms(2,4) by (intro dropWhile_all) auto
  moreover have "takeWhile (\<lambda>c. c \<noteq> newline) body = body"
    using assms(5) by (intro takeWhile_eq_all_conv [THEN iffD2]) auto
  ultimately show ?thesis using assms(1) by (simp add: after_token_def)
qed

lemma after_digits_token:
  assumes "pct = [] \<or> (\<exists>p. pct = [p] \<and> percent_class p)"
    "ws \<noteq> []" "\<forall>c\<in>set ws. is_space c" "body \<noteq> []" "\<not> is_space (hd body)"
    "newline \<notin> set body"
  shows "after_digits num (pct @ ws @ body) = Some (num @ pct, body)"
proof (cases "pct = []")
  case True
  obtain w ws' where ws: "ws = w # ws'" using assms(2) by (cases ws) auto
  then have "\<not> percent_class w" using assms(3) space_not_percent by simp
  then have "after_digits num (ws @ body) = after_token num (ws @ body)"
    using ws by (simp add: after_digits_def)
  with True show ?thesis using after_token_spaces [OF assms(2-6)] by simp
next
  case False
  with assms(1) obtain p where p: "pct = [p]" "percent_class p" by blast
  have "after_token (num @ [p]) (ws @ body) = Some (num @ [p], body)"
    using assms(2-6) by (rule after_token_spaces)
  with p show ?thesis by (simp add: after_digits_def)
qed

lemma digits_plus_stop:
  "rest \<noteq> [] \<Longrightarrow> \<not> digit_class nd (hd rest) \<Longrightarrow> digits_plus nd num rest = None"
  by (cases rest) auto

lemma digits_plus_token:
  assumes "rest \<noteq> []" "\<not> digit_class nd (hd rest)"
  shows "ds \<noteq> [] \<Longrightarrow> \<forall>c\<in>set ds. digit_class nd c \<Longrightarrow>
     after_digits (num @ ds) rest = Some r \<Longrightarrow> digits_plus nd num (ds @ rest) = Some r"
proof (induction ds arbitrary: num)
  case Nil
  then show ?case by simp
next
  case (Cons d ds)
  show ?case
  proof (cases "ds = []")
    case True
    then show ?thesis using Cons.prems digits_plus_stop [OF assms] by simp
  next
    case False
    have "digits_plus nd (num @ [d]) (ds @ rest) = Some r"
      using False Cons.prems by (intro Cons.IH) auto
    then show ?thesis using Cons.prems by simp
  qed
qed

lemma after_token_Some:
  "after_token num xs = Some r \<Longrightarrow> \<exists>w rest. xs = [w] @ rest \<and> is_space w"
  by (cases xs) (auto simp: after_token_def split: if_splits)

lemma after_digits_Some:
  assumes "after_digits num xs = Some r"
  shows "\<exists>pct w rest. xs = pct @ [w] @ rest \<and> (pct = [] \<or> pct = [37] \<or> pct = [1642]) \<and> is_space w"
proof (cases xs)
  case Nil
  with assms show ?thesis by (simp add: after_digits_def after_token_def)
next
  case (Cons p ps)
  show ?thesis
  proof (cases "percent_class p \<and> after_token (num @ [p]) ps \<noteq> None")
    case True
    then obtain r' where "after_token (num @ [p]) ps = Some r'" by auto
    from after_token_Some [OF this] obtain w rest where "ps = [w] @ rest" "is_space w" by blast
    moreover have "[p] = [37] \<or> [p] = [1642]" using True by (auto simp: percent_class_def)
    ultimately have "xs = [p] @ [w] @ rest \<and> ([p] = [] \<or> [p] = [37] \<or> [p] = [1642]) \<and> is_space w"
      using Cons by simp
    then show ?thesis by blast
  next
    case False
    with assms Cons have "after_token num xs = Some r"
      by (auto simp: after_digits_def split: if_splits option.splits)
    from after_token_Some [OF this] obtain w rest where "xs = [w] @ rest" "is_space w" by blast
    then have "xs = [] @ [w] @ rest \<and> (([]::ustring) = [] \<or> ([]::ustring) = [37] \<or> ([]::ustring) = [1642]) \<and> is_space w"
      by simp
    then show ?thesis by blast
  qed
qed

lemma digits_plus_Some: "digits_plus nd num xs = Some r \<Longrightarrow> begins_with_token nd xs"
proof (induction xs arbitrary: num r)
  case Nil
  then show ?case by simp
next
  case (Cons x xs)
  from Cons.prems have x: "digit_class nd x" by (simp split: if_splits)
  show ?case
  proof (cases "digits_plus nd (num @ [x]) xs")
    case (Some r')
    from Cons.IH [OF this] obtain ds pct ws rest where
      h: "xs = ds @ pct @ ws @ rest" "ds \<noteq> []" "\<forall>c\<in>set ds. digit_class nd c"
         "pct = [] \<or> pct = [37] \<or> pct = [1642]" "ws \<noteq> []" "\<forall>c\<in>set ws. is_space c"
      unfolding begins_with_token_def by blast
    have "x # xs = (x # ds) @ pct @ ws @ rest \<and> x # ds \<noteq> [] \<and> (\<forall>c\<in>set (x # ds). digit_class nd c) \<and>
        (pct = [] \<or> pct = [37] \<or> pct = [1642]) \<and> ws \<noteq> [] \<and> (\<forall>c\<in>set ws. is_space c)"
      using h x by simp
    then show ?thesis unfolding begins_with_token_def by blast
  next
    case None
    with Cons.prems x have "after_digits (num @ [x]) xs = Some r" by simp
    from after_digits_Some [OF this] obtain pct w rest where
      h: "xs = pct @ [w] @ rest" "pct = [] \<or> pct = [37] \<or> pct = [1642]" "is_space w"
      by blast
    have "x # xs = [x] @ pct @ [w] @ rest \<and> [x] \<noteq> [] \<and> (\<forall>c\<in>set [x]. digit_class nd c) \<and>
        (pct = [] \<or> pct = [37] \<or> pct = [1642]) \<and> [w] \<noteq> [] \<and> (\<forall>c\<in>set [w]. is_space c)"
      using h x by simp
    then show ?thesis unfolding begins_with_token_def by blast
  qed
qed

lemma no_token_no_match: "\<not> begins_with_token nd answer \<Longrightarrow> digits_plus nd [] answer = None"
  using digits_plus_Some [of nd "[]" answer] by (cases "digits_plus nd [] answer") auto

lemma no_digit_no_token:
  "answer \<noteq> [] \<Longrightarrow> \<not> digit_class nd (hd answer) \<Longrightarrow> \<not> begins_with_token nd answer"
  unfolding begins_with_token_def by (auto simp: hd_append)

lemma prefix_not_space: "\<not> is_space (hd (prefix_for src))" "prefix_for src \<noteq> []"
  by (simp_all add: prefix_for_def arabic_prefix_def answer_prefix_def is_space_def)

text \<open>
  Claim C4, as stated: without a numeric token the output is the prefix followed by
  the answer, and with one it is the token, a space, the prefix and the remainder.
  This fails for the empty answer, where the final \<open>strip\<close> also removes the space
  that ends the prefix, and for a remainder of several lines, of which only the first
  is kept.
\<close>

theorem format_answer_layout_counterexample:
  "format_answer ascii_digit [] [] = [65, 110, 115, 119, 101, 114, 58] \<and>
   format_answer ascii_digit [] [] \<noteq> answer_prefix @ [] \<and>
   format_answer ascii_digit [] [55, 32, 97, newline, 98] = [55, 32] @ answer_prefix @ [97] \<and>
   format_answer ascii_digit [] [55, 32, 97, newline, 98]
     \<noteq> [55, 32] @ answer_prefix @ [97, newline, 98]"
  by (simp add: format_answer_def answer_prefix_def strip_def is_space_def digit_class_def
        ascii_digit_def after_digits_def after_token_def percent_class_def is_arabic_char_def)

text \<open>
  Claim C4, amended. The prefix is \<open>prefix_for src\<close>: it depends on the source text
  only. When the answer is a run of digits (the decimal digits of the interpreter or
  Arabic-Indic ones), an optional percent sign of either script, white space, and a
  one-line remainder that neither begins nor ends with white space, the output is the
  token, a space, the prefix and the remainder. When the answer is not empty, does not
  end with white space and does not begin with a numeric token followed by white
  space, the output is the prefix followed by the answer. In every case the prefix
  comes from the source text alone and the other two parts from the answer alone.
\<close>

theorem format_answer_layout:
  "(plain_digits nd \<and> ds \<noteq> [] \<and> (\<forall>c\<in>set ds. digit_class nd c) \<and>
    (pct = [] \<or> pct = [37] \<or> pct = [1642]) \<and>
    ws \<noteq> [] \<and> (\<forall>c\<in>set ws. is_space c) \<and>
    body \<noteq> [] \<and> \<not> is_space (hd body) \<and> \<not> is_space (last body) \<and> newline \<notin> set body
    \<longrightarrow> format_answer nd src (ds @ pct @ ws @ body)
          = ds @ pct @ [32] @ prefix_for src @ body) \<and>
   (answer \<noteq> [] \<and> \<not> is_space (last answer) \<and> \<not> begins_with_token nd answer
    \<longrightarrow> format_answer nd src answer = prefix_for src @ answer) \<and>
   (\<exists>num rest. \<forall>src'. format_answer nd src' answer
                       = strip (num @ [32] @ prefix_for src' @ rest))"
proof (intro conjI impI)
  show "\<exists>num rest. \<forall>src'. format_answer nd src' answer
                       = strip (num @ [32] @ prefix_for src' @ rest)"
  proof (cases "digits_plus nd [] answer")
    case None
    then have "\<forall>src'. format_answer nd src' answer = strip ([] @ [32] @ prefix_for src' @ answer)"
      by (simp add: format_answer_eq)
    then show ?thesis by blast
  next
    case (Some r)
    obtain num rest where "r = (num, rest)" by (cases r)
    with Some have "\<forall>src'. format_answer nd src' answer = strip (num @ [32] @ prefix_for src' @ rest)"
      by (simp add: format_answer_eq)
    then show ?thesis by blast
  qed
next
  assume h: "plain_digits nd \<and> ds \<noteq> [] \<and> (\<forall>c\<in>set ds. digit_class nd c) \<and>
    (pct = [] \<or> pct = [37] \<or> pct = [1642]) \<and>
    ws \<noteq> [] \<and> (\<forall>c\<in>set ws. is_space c) \<and>
    body \<noteq> [] \<and> \<not> is_space (hd body) \<and> \<not> is_space (last body) \<and> newline \<notin> set body"
  then have pct: "pct = [] \<or> (\<exists>p. pct = [p] \<and> percent_class p)"
    by (auto simp: percent_class_def)
  from h have ws: "ws \<noteq> []" "\<forall>c\<in>set ws. is_space c" and body: "body \<noteq> []"
    "\<not> is_space (hd body)" "newline \<notin> set body" "\<not> is_space (last body)"
    and ds: "ds \<noteq> []" "\<forall>c\<in>set ds. digit_class nd c" and nd: "plain_digits nd"
    by simp_all
  have tok: "after_digits ([] @ ds) (pct @ ws @ body) = Some (ds @ pct, body)"
    using after_digits_token [OF pct ws body(1,2,3), of ds] by simp
  have "is_space (hd (pct @ ws @ body)) \<or> percent_class (hd (pct @ ws @ body))"
    using pct ws by (cases ws) auto
  then have halt: "\<not> digit_class nd (hd (pct @ ws @ body))"
    using digit_class_plain [OF nd] by blast
  have "pct @ ws @ body \<noteq> []" using ws by simp
  from digits_plus_token [OF this halt ds tok]
  have m: "digits_plus nd [] (ds @ pct @ ws @ body) = Some (ds @ pct, body)" .
  have "\<not> is_space (hd ds)" using ds digit_class_plain [OF nd] by (cases ds) auto
  then have "strip ((ds @ pct) @ [32] @ prefix_for src @ body)
               = (ds @ pct) @ [32] @ prefix_for src @ body"
    using ds(1) body(1,4) by (intro strip_id) (simp_all add: hd_append)
  with m show "format_answer nd src (ds @ pct @ ws @ body)
          = ds @ pct @ [32] @ prefix_for src @ body"
    by (simp add: format_answer_eq)
next
  assume h: "answer \<noteq> [] \<and> \<not> is_space (last answer) \<and> \<not> begins_with_token nd answer"
  then have m: "digits_plus nd [] answer = None" by (intro no_token_no_match) simp
  have sp: "is_space 32" by (simp add: is_space_def)
  have "dropWhile is_space (prefix_for src @ answer) = prefix_for src @ answer"
    by (rule dropWhile_id) (simp_all add: hd_append prefix_not_space)
  then have 1: "dropWhile is_space ([32] @ prefix_for src @ answer) = prefix_for src @ answer"
    by (simp add: sp)
  have 2: "dropWhile is_space (rev (prefix_for src @ answer)) = rev (prefix_for src @ answer)"
    using h by (intro dropWhile_id) (simp_all add: hd_rev)
  have "strip ([32] @ prefix_for src @ answer) = prefix_for src @ answer"
    by (simp only: strip_def 1 2 rev_rev_ident)
  then show "format_answer nd src answer = prefix_for src @ answer"
    using m by (simp add: format_answer_eq)
qed

theorem format_answer_layout_witness:
  "plain_digits ascii_digit \<and> digit_class ascii_digit 52 \<and> digit_class ascii_digit 50 \<and>
   is_space 32 \<and> newline \<notin> set [111, 102, 32, 105, 116] \<and>
   format_answer ascii_digit [87, 104, 97, 116, 63] ([52, 50] @ [37] @ [32] @ [111, 102, 32, 105, 116])
     = [52, 50, 37, 32, 65, 110, 115, 119, 101, 114, 58, 32, 111, 102, 32, 105, 116] \<and>
   \<not> begins_with_token ascii_digit [1576, 1575, 1585, 1610, 1587] \<and>
   format_answer ascii_digit [1605, 1575, 32, 1607, 1610, 1567] [1576, 1575, 1585, 1610, 1587]
     = [1575, 1604, 1573, 1580, 1575, 1576, 1577, 58, 32, 1576, 1575, 1585, 1610, 1587]"
proof -
  have nd: "plain_digits ascii_digit"
    by (auto simp: plain_digits_def ascii_digit_def is_space_def percent_class_def)
  have ds: "\<forall>c\<in>set [52, 50]. digit_class ascii_digit c"
    by (simp add: digit_class_def ascii_digit_def)
  have ws: "\<forall>c\<in>set [32]. is_space c" by (simp add: is_space_def)
  have body: "\<not> is_space (hd [111, 102, 32, 105, 116])" "\<not> is_space (last [111, 102, 32, 105, 116])"
    by (simp_all add: is_space_def)
  have ans: "\<not> is_space (last [1576, 1575, 1585, 1610, 1587])"
    "\<not> begins_with_token ascii_digit [1576, 1575, 1585, 1610, 1587]"
    by (simp_all add: is_space_def no_digit_no_token digit_class_def ascii_digit_def)
  have p1: "prefix_for [87, 104, 97, 116, 63] = answer_prefix" by (simp add: prefix_for_def)
  have p2: "prefix_for [1605, 1575, 32, 1607, 1610, 1567] = arabic_prefix" by (simp add: prefix_for_def)
  show ?thesis
    using format_answer_layout [where nd = ascii_digit and ds = "[52, 50]" and pct = "[37]" and ws = "[32]"
        and body = "[111, 102, 32, 105, 116]" and src = "[87, 104, 97, 116, 63]"
        and answer = "[]"]
      format_answer_layout [where nd = ascii_digit and ds = "[]" and src = "[1605, 1575, 32, 1607, 1610, 1567]"
        and answer = "[1576, 1575, 1585, 1610, 1587]"]
      nd ds ws body ans
    by (simp add: p1 p2 arabic_prefix_def answer_prefix_def)
qed

section \<open>What is sent to the answer service\<close>

lemma distinct_extract_questions: "distinct (extract_questions src)"
  by (simp add: extract_questions_eq distinct_first_occurrences)

lemma send_requests: "requests (snd (send svc n prompt)) = requests n @ [prompt]"
  by (simp add: send_def split: prod.splits)

lemma query_openai_no_key:
  "no_key key \<Longrightarrow> query_openai key svc n q = (Inl missing_key_error, n)"
  by (simp add: query_openai_def missing_key_error_def)

lemma query_openai_requests:
  "\<not> no_key key \<Longrightarrow> requests (snd (query_openai key svc n q)) = requests n @ [q]"
  by (simp add: query_openai_def send_def split: prod.splits reply.splits)

lemma query_openai_gui_requests:
  "\<not> no_key key \<Longrightarrow> requests (snd (query_openai_gui key svc n q)) = requests n @ [q]"
  by (simp add: query_openai_gui_def send_def split: prod.splits reply.splits)

lemma ask_ai_requests:
  "\<not> no_key key \<Longrightarrow> requests (snd (ask_ai key svc n q)) = requests n @ [q]"
  by (simp add: ask_ai_def send_def split: prod.splits reply.splits)

lemma query_openai_requests_any:
  "\<exists>extra. requests (snd (query_openai key svc n q)) = requests n @ extra \<and> set extra \<subseteq> {q}"
  by (cases "no_key key") (simp_all add: query_openai_no_key query_openai_requests)

lemma ask_one_seen: "q \<in> seen st \<Longrightarrow> ask_one key svc st q = st"
  by (simp add: ask_one_def)

lemma ask_one_failure:
  "q \<notin> seen st \<Longrightarrow> fst (query_openai key svc (net st) q) = Inl e \<Longrightarrow>
     seen (ask_one key svc st q) = seen st \<and>
     out (ask_one key svc st q) = out st @ [QuestionDetected q, ErrorWhileQuerying e]"
  by (cases "query_openai key svc (net st) q") (simp add: ask_one_def)

lemma ask_one_success:
  "q \<notin> seen st \<Longrightarrow> fst (query_openai key svc (net st) q) = Inr a \<Longrightarrow>
     seen (ask_one key svc st q) = insert q (seen st) \<and>
     out (ask_one key svc st q) = out st @ [QuestionDetected q, Answer a]"
  by (cases "query_openai key svc (net st) q") (simp add: ask_one_def)

lemma ask_one_net:
  "net (ask_one key svc st q) = (if q \<in> seen st then net st else snd (query_openai key svc (net st) q))"
  by (cases "query_openai key svc (net st) q") (auto simp: ask_one_def split: sum.splits)

lemma ask_one_seen_cases:
  "seen (ask_one key svc st q) = seen st \<or>
   (q \<notin> seen st \<and> seen (ask_one key svc st q) = insert q (seen st) \<and>
    (\<exists>a. fst (query_openai key svc (net st) q) = Inr a))"
  by (cases "query_openai key svc (net st) q") (auto simp: ask_one_def split: sum.splits)

lemma ask_one_requests:
  "\<not> no_key key \<Longrightarrow>
     requests (net (ask_one key svc st q)) = requests (net st) @ (if q \<in> seen st then [] else [q])"
  by (simp add: ask_one_net query_openai_requests)

lemma foldl_ask_one_requests:
  "\<not> no_key key \<Longrightarrow> distinct qs \<Longrightarrow>
     requests (net (foldl (ask_one key svc) st qs))
       = requests (net st) @ filter (\<lambda>q. q \<notin> seen st) qs"
proof (induction qs arbitrary: st)
  case Nil
  then show ?case by simp
next
  case (Cons q qs)
  have same: "filter (\<lambda>x. x \<notin> seen (ask_one key svc st q)) qs = filter (\<lambda>x. x \<notin> seen st) qs"
    using ask_one_seen_cases [of key svc st q] Cons.prems(2)
    by (intro filter_cong) auto
  have "requests (net (foldl (ask_one key svc) (ask_one key svc st q) qs))
      = requests (net (ask_one key svc st q)) @ filter (\<lambda>x. x \<notin> seen (ask_one key svc st q)) qs"
    using Cons.prems by (intro Cons.IH) auto
  then show ?case using Cons.prems(1) by (simp add: same ask_one_requests)
qed

lemma capture_cycle_requests:
  "\<not> no_key key \<Longrightarrow>
     requests (net (capture_cycle key svc st src))
       = requests (net st) @ filter (\<lambda>q. q \<notin> seen st) (extract_questions src)"
  by (simp add: capture_cycle_def foldl_ask_one_requests distinct_extract_questions)

text \<open>
  Claim C3, as stated: every interactive flow sends the result of the fallback chain.
  This fails for \<open>screen_qna_snap.py\<close>, which sends the whole trimmed text: for a text
  with an Arabic question followed by other words the chain gives the question alone.
\<close>

theorem question_sent_counterexample:
  "requests (snd (snap_once (Some [107]) (\<lambda>w q. (Content [], w))
      \<lparr>remote = (), requests = []\<rparr> [97, 98, arabic_qmark, 32, 99, 100]))
     = [ [97, 98, arabic_qmark, 32, 99, 100]] \<and>
   extract_question [97, 98, arabic_qmark, 32, 99, 100] = [97, 98, arabic_qmark]"
  by (simp add: snap_once_def ask_ai_def no_key_def send_def strip_def is_space_def
        extract_question_def run_at_def)

text \<open>
  Claim C3, amended. With a credential, the window program sends exactly the result
  of the fallback chain on the recognized text; the snapping program sends the whole
  trimmed text, and nothing when that is empty; one capture of the continuous program
  sends the matches of the Latin multi-match extractor that are not in the seen set,
  in order.
\<close>

theorem question_sent:
  "\<not> no_key key \<Longrightarrow>
     requests (snd (run_ocr_and_answer nd key svc n src)) = requests n @ [extract_question src] \<and>
     requests (snd (snap_once key svc n src))
       = requests n @ (if strip src = [] then [] else [strip src]) \<and>
     requests (net (capture_cycle key svc st src))
       = requests (net st) @ filter (\<lambda>q. q \<notin> seen st) (extract_questions src)"
proof -
  assume k: "\<not> no_key key"
  have 1: "requests (snd (run_ocr_and_answer nd key svc n src)) = requests n @ [extract_question src]"
    using query_openai_gui_requests [OF k, of svc n "extract_question src"]
    by (cases "query_openai_gui key svc n (extract_question src)")
       (simp add: run_ocr_and_answer_def Let_def split: sum.splits)
  have 2: "requests (snd (snap_once key svc n src))
       = requests n @ (if strip src = [] then [] else [strip src])"
    using ask_ai_requests [OF k, of svc n "strip src"]
    by (cases "ask_ai key svc n (strip src)")
       (simp add: snap_once_def Let_def split: sum.splits)
  from 1 2 capture_cycle_requests [OF k] show ?thesis by blast
qed

theorem question_sent_witness:
  "\<not> no_key (Some [107]) \<and>
   requests (snd (run_ocr_and_answer ascii_digit (Some [107]) (\<lambda>w q. (Content [], w))
      \<lparr>remote = (), requests = []\<rparr> [115, 111, 32, 73, 115, 32, 105, 116, 32, 111, 107, 63, 32, 120]))
     = [ [115, 111, 32, 73, 115, 32, 105, 116, 32, 111, 107, 63]] \<and>
   requests (snd (snap_once (Some [107]) (\<lambda>w q. (Content [], w))
      \<lparr>remote = (), requests = []\<rparr> [115, 111, 32, 73, 115, 32, 105, 116, 32, 111, 107, 63, 32, 120]))
     = [ [115, 111, 32, 73, 115, 32, 105, 116, 32, 111, 107, 63, 32, 120]] \<and>
   requests (net (capture_cycle (Some [107]) (\<lambda>w q. (Content [], w)) (run0 ())
      [115, 111, 32, 73, 115, 32, 105, 116, 32, 111, 107, 63, 32, 120]))
     = [ [73, 115, 32, 105, 116, 32, 111, 107, 63]]"
proof -
  have k: "\<not> no_key (Some [107])" by (simp add: no_key_def)
  have 1: "extract_question [115, 111, 32, 73, 115, 32, 105, 116, 32, 111, 107, 63, 32, 120]
             = [115, 111, 32, 73, 115, 32, 105, 116, 32, 111, 107, 63]"
    by (simp add: extract_question_def run_at_def strip_def is_space_def)
  have 2: "strip [115, 111, 32, 73, 115, 32, 105, 116, 32, 111, 107, 63, 32, 120]
             = [115, 111, 32, 73, 115, 32, 105, 116, 32, 111, 107, 63, 32, 120]"
    by (simp add: strip_def is_space_def)
  have 3: "extract_questions [115, 111, 32, 73, 115, 32, 105, 116, 32, 111, 107, 63, 32, 120]
             = [ [73, 115, 32, 105, 116, 32, 111, 107, 63]]"
    by (simp add: extract_questions_def fromkeys_def strip_def is_upper_def is_space_def)
  show ?thesis
    using question_sent [OF k, where nd = ascii_digit and svc = "\<lambda>w q. (Content [], w)"
        and n = "\<lparr>remote = (), requests = []\<rparr>"
        and src = "[115, 111, 32, 73, 115, 32, 105, 116, 32, 111, 107, 63, 32, 120]"
        and st = "run0 ()"] k
    by (simp add: 1 2 3 run0_def)
qed

section \<open>The missing credential\<close>

lemma ask_one_no_key:
  "no_key key \<Longrightarrow>
     seen (ask_one key svc st q) = seen st \<and> net (ask_one key svc st q) = net st \<and>
     out (ask_one key svc st q)
       = out st @ (if q \<in> seen st then [] else [QuestionDetected q, ErrorWhileQuerying missing_key_error])"
  by (simp add: ask_one_def query_openai_no_key)

lemma foldl_ask_one_no_key:
  "no_key key \<Longrightarrow>
     seen (foldl (ask_one key svc) st qs) = seen st \<and>
     net (foldl (ask_one key svc) st qs) = net st \<and>
     out (foldl (ask_one key svc) st qs)
       = out st @ concat (map (\<lambda>q. [QuestionDetected q, ErrorWhileQuerying missing_key_error])
                            (filter (\<lambda>q. q \<notin> seen st) qs))"
proof (induction qs arbitrary: st)
  case Nil
  then show ?case by simp
next
  case (Cons q qs)
  from Cons.IH [OF Cons.prems, of "ask_one key svc st q"] ask_one_no_key [OF Cons.prems, of svc st q]
  show ?case by simp
qed

lemma capture_cycle_no_key:
  "no_key key \<Longrightarrow>
     seen (capture_cycle key svc st src) = seen st \<and>
     net (capture_cycle key svc st src) = net st \<and>
     out (capture_cycle key svc st src) = out st @ reports (seen st) missing_key_error src"
  by (simp add: capture_cycle_def reports_def foldl_ask_one_no_key)

lemma main_loop_all: "main_loop key svc False st texts = foldl (capture_cycle key svc) st texts"
  by (induction texts arbitrary: st) simp_all

lemma main_loop_no_key:
  "no_key key \<Longrightarrow>
     seen (main_loop key svc once st texts) = seen st \<and>
     net (main_loop key svc once st texts) = net st"
proof (induction texts arbitrary: st)
  case Nil
  then show ?case by simp
next
  case (Cons t ts)
  show ?case
  proof (cases once)
    case True
    then show ?thesis using capture_cycle_no_key [OF Cons.prems, of svc st t] by (simp add: Let_def)
  next
    case False
    then show ?thesis
      using Cons.IH [OF Cons.prems, of "capture_cycle key svc st t"]
        capture_cycle_no_key [OF Cons.prems, of svc st t]
      by (simp add: Let_def)
  qed
qed

lemma main_loop_no_key_out:
  "no_key key \<Longrightarrow>
     out (main_loop key svc False st texts)
       = out st @ concat (map (reports (seen st) missing_key_error) texts)"
proof (induction texts arbitrary: st)
  case Nil
  then show ?case by simp
next
  case (Cons t ts)
  from Cons.IH [OF Cons.prems, of "capture_cycle key svc st t"] capture_cycle_no_key [OF Cons.prems, of svc st t]
  show ?case by simp
qed

text \<open>
  Claim C5, as stated: a missing credential aborts the continuous loop. This fails:
  \<open>main\<close> catches the exception like any other, so after the first capture has
  reported it, the second capture is taken and its question is reported too.
\<close>

theorem missing_key_counterexample:
  "out (main_loop None (\<lambda>w q. (Content [], w)) False (run0 ())
          [ [73, 115, 32, 105, 116, 32, 111, 107, qmark], [87, 104, 121, 32, 110, 111, 116, qmark]])
     = [QuestionDetected [73, 115, 32, 105, 116, 32, 111, 107, qmark],
        ErrorWhileQuerying (RuntimeError ''OPENAI_API_KEY environment variable not set.''),
        QuestionDetected [87, 104, 121, 32, 110, 111, 116, qmark],
        ErrorWhileQuerying (RuntimeError ''OPENAI_API_KEY environment variable not set.'')]"
  by (simp add: capture_cycle_def extract_questions_def fromkeys_def strip_def is_upper_def
        is_space_def ask_one_def query_openai_def no_key_def run0_def)

text \<open>
  Claim C5, amended. Without a credential \<open>query_openai\<close> fails at once with the
  message that the variable is not set, and the network is not touched. The continuous
  program treats this as the failure of one question: it sends nothing, adds nothing to
  the seen set, and for every capture prints each question not seen before together
  with the error, until it is stopped.
\<close>

theorem missing_key:
  "no_key key \<Longrightarrow>
     query_openai key svc n q = (Inl missing_key_error, n) \<and>
     net (main_loop key svc once st texts) = net st \<and>
     seen (main_loop key svc once st texts) = seen st \<and>
     out (main_loop key svc False st texts)
       = out st @ concat (map (reports (seen st) missing_key_error) texts)"
  by (simp add: query_openai_no_key main_loop_no_key main_loop_no_key_out)

theorem missing_key_witness:
  "no_key None \<and>
   query_openai None (\<lambda>w q. (Content [], w)) \<lparr>remote = (), requests = []\<rparr> [73, 115, 32, 105, 116, 32, 111, 107, 63]
     = (Inl (RuntimeError ''OPENAI_API_KEY environment variable not set.''), \<lparr>remote = (), requests = []\<rparr>) \<and>
   requests (net (main_loop None (\<lambda>w q. (Content [], w)) False (run0 ())
      [ [73, 115, 32, 105, 116, 32, 111, 107, 63], [87, 104, 121, 32, 110, 111, 116, 63]])) = [] \<and>
   out (main_loop None (\<lambda>w q. (Content [], w)) False (run0 ())
      [ [73, 115, 32, 105, 116, 32, 111, 107, 63], [87, 104, 121, 32, 110, 111, 116, 63]])
     = [QuestionDetected [73, 115, 32, 105, 116, 32, 111, 107, 63],
        ErrorWhileQuerying (RuntimeError ''OPENAI_API_KEY environment variable not set.''),
        QuestionDetected [87, 104, 121, 32, 110, 111, 116, 63],
        ErrorWhileQuerying (RuntimeError ''OPENAI_API_KEY environment variable not set.'')]"
proof -
  have k: "no_key None" by (simp add: no_key_def)
  have 1: "extract_questions [73, 115, 32, 105, 116, 32, 111, 107, 63] = [ [73, 115, 32, 105, 116, 32, 111, 107, 63]]"
    by (simp add: extract_questions_def fromkeys_def strip_def is_upper_def is_space_def)
  have 2: "extract_questions [87, 104, 121, 32, 110, 111, 116, 63] = [ [87, 104, 121, 32, 110, 111, 116, 63]]"
    by (simp add: extract_questions_def fromkeys_def strip_def is_upper_def is_space_def)
  show ?thesis
    using missing_key [OF k, where svc = "\<lambda>w q. (Content [], w)" and n = "\<lparr>remote = (), requests = []\<rparr>"
        and q = "[73, 115, 32, 105, 116, 32, 111, 107, 63]" and once = False and st = "run0 ()"
        and texts = "[ [73, 115, 32, 105, 116, 32, 111, 107, 63], [87, 104, 121, 32, 110, 111, 116, 63]]"] k
    by (simp add: reports_def 1 2 run0_def missing_key_error_def)
qed

section \<open>The seen set of the continuous program\<close>

lemma ask_one_extra:
  "\<exists>extra. requests (net (ask_one key svc st q)) = requests (net st) @ extra \<and>
           set extra \<inter> seen st = {} \<and> seen st \<subseteq> seen (ask_one key svc st q)"
proof (cases "q \<in> seen st")
  case True
  then show ?thesis by (simp add: ask_one_seen)
next
  case False
  obtain extra where "requests (snd (query_openai key svc (net st) q)) = requests (net st) @ extra"
    "set extra \<subseteq> {q}"
    using query_openai_requests_any by blast
  moreover have "seen st \<subseteq> seen (ask_one key svc st q)"
    using ask_one_seen_cases [of key svc st q] by auto
  ultimately show ?thesis using False by (auto simp: ask_one_net)
qed

lemma foldl_ask_one_extra:
  "\<exists>extra. requests (net (foldl (ask_one key svc) st qs)) = requests (net st) @ extra \<and>
           set extra \<inter> seen st = {} \<and> seen st \<subseteq> seen (foldl (ask_one key svc) st qs)"
proof (induction qs arbitrary: st)
  case Nil
  then show ?case by simp
next
  case (Cons q qs)
  obtain e1 where 1: "requests (net (ask_one key svc st q)) = requests (net st) @ e1"
    "set e1 \<inter> seen st = {}" "seen st \<subseteq> seen (ask_one key svc st q)"
    using ask_one_extra by blast
  obtain e2 where 2: "requests (net (foldl (ask_one key svc) (ask_one key svc st q) qs))
       = requests (net (ask_one key svc st q)) @ e2"
    "set e2 \<inter> seen (ask_one key svc st q) = {}"
    "seen (ask_one key svc st q) \<subseteq> seen (foldl (ask_one key svc) (ask_one key svc st q) qs)"
    using Cons.IH by blast
  have "requests (net (foldl (ask_one key svc) st (q # qs))) = requests (net st) @ (e1 @ e2)"
    using 1(1) 2(1) by simp
  moreover have "set (e1 @ e2) \<inter> seen st = {}" using 1(2,3) 2(2) by auto
  moreover have "seen st \<subseteq> seen (foldl (ask_one key svc) st (q # qs))" using 1(3) 2(3) by auto
  ultimately show ?case by blast
qed

lemma main_loop_extra:
  "\<exists>extra. requests (net (main_loop key svc once st texts)) = requests (net st) @ extra \<and>
           set extra \<inter> seen st = {} \<and> seen st \<subseteq> seen (main_loop key svc once st texts)"
proof (induction texts arbitrary: st)
  case Nil
  then show ?case by simp
next
  case (Cons t ts)
  let ?st = "capture_cycle key svc st t"
  obtain e1 where 1: "requests (net ?st) = requests (net st) @ e1"
    "set e1 \<inter> seen st = {}" "seen st \<subseteq> seen ?st"
    unfolding capture_cycle_def using foldl_ask_one_extra by blast
  show ?case
  proof (cases once)
    case True
    with 1 show ?thesis by (simp add: Let_def)
  next
    case False
    obtain e2 where 2: "requests (net (main_loop key svc once ?st ts)) = requests (net ?st) @ e2"
      "set e2 \<inter> seen ?st = {}" "seen ?st \<subseteq> seen (main_loop key svc once ?st ts)"
      using Cons.IH by blast
    have "requests (net (main_loop key svc once st (t # ts))) = requests (net st) @ (e1 @ e2)"
      using False 1(1) 2(1) by (simp add: Let_def)
    moreover have "set (e1 @ e2) \<inter> seen st = {}" using 1(2,3) 2(2) by auto
    moreover have "seen st \<subseteq> seen (main_loop key svc once st (t # ts))"
      using False 1(3) 2(3) by (auto simp: Let_def)
    ultimately show ?thesis by blast
  qed
qed

lemma main_loop_not_resent:
  "q \<in> seen st \<Longrightarrow> q \<notin> set (new_requests (net st) (net (main_loop key svc once st texts)))"
  using main_loop_extra [of key svc once st texts] by (auto simp: new_requests_def)

lemma map_fst_outcomes: "map fst (outcomes key svc n qs) = qs"
  by (induction qs arbitrary: n) simp_all

lemma ask_one_unseen:
  "q \<notin> seen st \<Longrightarrow>
     out (ask_one key svc st q) = out st @ report_of (q, fst (query_openai key svc (net st) q)) \<and>
     seen (ask_one key svc st q)
       = seen st \<union> {x. \<exists>a. (x, Inr a) = (q, fst (query_openai key svc (net st) q))} \<and>
     net (ask_one key svc st q) = snd (query_openai key svc (net st) q)"
  by (cases "query_openai key svc (net st) q"; cases "fst (query_openai key svc (net st) q)")
     (auto simp: ask_one_def)

lemma foldl_ask_one_outcomes:
  "distinct qs \<Longrightarrow>
     out (foldl (ask_one key svc) st qs)
       = out st @ concat (map report_of (outcomes key svc (net st) (filter (\<lambda>q. q \<notin> seen st) qs))) \<and>
     seen (foldl (ask_one key svc) st qs)
       = seen st \<union> {x. \<exists>a. (x, Inr a) \<in> set (outcomes key svc (net st) (filter (\<lambda>q. q \<notin> seen st) qs))}"
proof (induction qs arbitrary: st)
  case Nil
  then show ?case by simp
next
  case (Cons q qs)
  from Cons.prems have d: "distinct qs" and nq: "q \<notin> set qs" by simp_all
  show ?case
  proof (cases "q \<in> seen st")
    case True
    then show ?thesis using Cons.IH [OF d, of st] by (simp add: ask_one_seen)
  next
    case False
    let ?st1 = "ask_one key svc st q"
    note one = ask_one_unseen [OF False, of key svc]
    have same: "filter (\<lambda>x. x \<notin> seen ?st1) qs = filter (\<lambda>x. x \<notin> seen st) qs"
      using one nq by (intro filter_cong) auto
    from Cons.IH [OF d, of ?st1] have
      o: "out (foldl (ask_one key svc) ?st1 qs)
            = out ?st1 @ concat (map report_of (outcomes key svc (net ?st1) (filter (\<lambda>x. x \<notin> seen st) qs)))"
      and s: "seen (foldl (ask_one key svc) ?st1 qs)
            = seen ?st1 \<union> {x. \<exists>a. (x, Inr a) \<in> set (outcomes key svc (net ?st1) (filter (\<lambda>x. x \<notin> seen st) qs))}"
      by (simp_all add: same)
    have 1: "out (foldl (ask_one key svc) st (q # qs))
       = out st @ concat (map report_of (outcomes key svc (net st) (filter (\<lambda>q. q \<notin> seen st) (q # qs))))"
      using False o one by simp
    have 2: "seen (foldl (ask_one key svc) st (q # qs))
       = seen st \<union> {x. \<exists>a. (x, Inr a) \<in> set (outcomes key svc (net st) (filter (\<lambda>q. q \<notin> seen st) (q # qs)))}"
      using False s one by auto
    from 1 2 show ?thesis by blast
  qed
qed

lemma capture_cycle_outcomes:
  "out (capture_cycle key svc st src)
     = out st @ concat (map report_of (capture_outcomes key svc st src)) \<and>
   seen (capture_cycle key svc st src)
     = seen st \<union> {x. \<exists>a. (x, Inr a) \<in> set (capture_outcomes key svc st src)}"
  unfolding capture_cycle_def capture_outcomes_def
  by (rule foldl_ask_one_outcomes) (rule distinct_extract_questions)

lemma map_fst_capture_outcomes:
  "map fst (capture_outcomes key svc st src) = filter (\<lambda>q. q \<notin> seen st) (extract_questions src)"
  by (simp add: capture_outcomes_def map_fst_outcomes)

lemma distinct_capture_outcomes: "distinct (map fst (capture_outcomes key svc st src))"
  by (simp add: map_fst_capture_outcomes distinct_extract_questions)

lemma asked_iff:
  "q \<in> fst ` set (capture_outcomes key svc st src) \<longleftrightarrow> q \<notin> seen st \<and> q \<in> set (extract_questions src)"
proof -
  have "fst ` set (capture_outcomes key svc st src) = set (map fst (capture_outcomes key svc st src))"
    by simp
  then show ?thesis unfolding map_fst_capture_outcomes by auto
qed

lemma failed_not_seen:
  assumes "(q, Inl e) \<in> set (capture_outcomes key svc st src)"
  shows "q \<notin> seen (capture_cycle key svc st src)"
proof
  assume "q \<in> seen (capture_cycle key svc st src)"
  then have "q \<in> seen st \<or> (\<exists>a. (q, Inr a) \<in> set (capture_outcomes key svc st src))"
    using capture_cycle_outcomes [of key svc st src] by auto
  moreover have "q \<notin> seen st"
    using assms asked_iff [of q key svc st src] by force
  ultimately obtain a where "(q, Inr a) \<in> set (capture_outcomes key svc st src)" by blast
  with assms have "(Inl e :: exn + ustring) = Inr a"
    using eq_key_imp_eq_value [OF distinct_capture_outcomes] by blast
  then show False by simp
qed

lemma answered_seen:
  "(q, Inr a) \<in> set (capture_outcomes key svc st src) \<Longrightarrow> q \<in> seen (capture_cycle key svc st src)"
  using capture_cycle_outcomes [of key svc st src] by auto

lemma main_loop_seen_mono: "q \<in> seen st \<Longrightarrow> q \<in> seen (main_loop key svc once st texts)"
  using main_loop_extra [of key svc once st texts] by auto

lemma capture_new_requests:
  "\<not> no_key key \<Longrightarrow>
     new_requests (net st) (net (capture_cycle key svc st src)) = map fst (capture_outcomes key svc st src)"
  by (simp add: new_requests_def capture_cycle_requests map_fst_capture_outcomes)

text \<open>
  Claim C6. In the continuous program a question enters the seen set only when its
  query has just succeeded; a failed query is reported, leaves the seen set as it was,
  so that the question is sent again by the next capture that shows it, and the loop
  goes on through all captures; a question in the seen set is never sent again.

  The statement is made for one pass of the loop body, for one capture and for the
  whole loop. After a capture the output is the old output followed by the report of
  every outcome of the capture, in order, and the seen set is the old one with exactly
  the questions whose query returned an answer. A question whose query failed in a
  capture is outside the seen set afterwards and is asked again by a next capture that
  shows it; one whose query succeeded is in the seen set afterwards, is not asked by
  a next capture, and stays seen and unsent for the rest of the loop.
\<close>

theorem seen_set_discipline:
  "(q \<in> seen (ask_one key svc st q') \<longrightarrow>
      q \<in> seen st \<or> (q = q' \<and> (\<exists>a. fst (query_openai key svc (net st) q') = Inr a))) \<and>
   (q \<notin> seen st \<and> fst (query_openai key svc (net st) q) = Inr a \<longrightarrow>
      seen (ask_one key svc st q) = insert q (seen st) \<and>
      out (ask_one key svc st q) = out st @ [QuestionDetected q, Answer a]) \<and>
   (q \<notin> seen st \<and> fst (query_openai key svc (net st) q) = Inl e \<longrightarrow>
      seen (ask_one key svc st q) = seen st \<and>
      out (ask_one key svc st q) = out st @ [QuestionDetected q, ErrorWhileQuerying e]) \<and>
   (\<not> no_key key \<and> q \<notin> seen st \<and> q \<in> set (extract_questions src) \<longrightarrow>
      q \<in> set (new_requests (net st) (net (capture_cycle key svc st src)))) \<and>
   main_loop key svc False st texts = foldl (capture_cycle key svc) st texts \<and>
   main_loop key svc True st (src # texts) = capture_cycle key svc st src \<and>
   (q \<in> seen st \<longrightarrow>
      q \<notin> set (new_requests (net st) (net (main_loop key svc once st texts)))) \<and>
   map fst (capture_outcomes key svc st src)
     = filter (\<lambda>x. x \<notin> seen st) (extract_questions src) \<and>
   out (capture_cycle key svc st src)
     = out st @ concat (map report_of (capture_outcomes key svc st src)) \<and>
   seen (capture_cycle key svc st src)
     = seen st \<union> {x. \<exists>b. (x, Inr b) \<in> set (capture_outcomes key svc st src)} \<and>
   (\<not> no_key key \<longrightarrow>
      new_requests (net st) (net (capture_cycle key svc st src))
        = map fst (capture_outcomes key svc st src)) \<and>
   ((q, Inl e) \<in> set (capture_outcomes key svc st src) \<longrightarrow>
      q \<notin> seen (capture_cycle key svc st src) \<and>
      (q \<in> set (extract_questions nxt) \<longrightarrow>
         q \<in> fst ` set (capture_outcomes key svc (capture_cycle key svc st src) nxt))) \<and>
   ((q, Inr a) \<in> set (capture_outcomes key svc st src) \<longrightarrow>
      q \<in> seen (capture_cycle key svc st src) \<and>
      q \<notin> fst ` set (capture_outcomes key svc (capture_cycle key svc st src) nxt) \<and>
      q \<in> seen (main_loop key svc once (capture_cycle key svc st src) texts) \<and>
      q \<notin> set (new_requests (net (capture_cycle key svc st src))
                 (net (main_loop key svc once (capture_cycle key svc st src) texts))))"
proof (intro conjI impI)
  assume "q \<in> seen (ask_one key svc st q')"
  then show "q \<in> seen st \<or> (q = q' \<and> (\<exists>a. fst (query_openai key svc (net st) q') = Inr a))"
    using ask_one_seen_cases [of key svc st q'] by auto
next
  assume "\<not> no_key key \<and> q \<notin> seen st \<and> q \<in> set (extract_questions src)"
  then show "q \<in> set (new_requests (net st) (net (capture_cycle key svc st src)))"
    by (simp add: new_requests_def capture_cycle_requests)
next
  assume f: "(q, Inl e) \<in> set (capture_outcomes key svc st src)"
  then show n: "q \<notin> seen (capture_cycle key svc st src)" by (rule failed_not_seen)
  assume "q \<in> set (extract_questions nxt)"
  with n show "q \<in> fst ` set (capture_outcomes key svc (capture_cycle key svc st src) nxt)"
    by (simp only: asked_iff) simp
next
  assume "(q, Inr a) \<in> set (capture_outcomes key svc st src)"
  then have s: "q \<in> seen (capture_cycle key svc st src)" by (rule answered_seen)
  then show "q \<in> seen (capture_cycle key svc st src)" .
  from s show "q \<notin> fst ` set (capture_outcomes key svc (capture_cycle key svc st src) nxt)"
    by (simp only: asked_iff) simp
  from s show "q \<in> seen (main_loop key svc once (capture_cycle key svc st src) texts)"
    by (rule main_loop_seen_mono)
  from s show "q \<notin> set (new_requests (net (capture_cycle key svc st src))
                 (net (main_loop key svc once (capture_cycle key svc st src) texts)))"
    by (rule main_loop_not_resent)
qed (simp_all add: ask_one_success ask_one_failure main_loop_all main_loop_not_resent
      map_fst_capture_outcomes capture_cycle_outcomes capture_new_requests)

theorem seen_set_discipline_witness:
  "[73, 115, 32, 105, 116, 32, 111, 107, 63] \<notin> seen (run0 (0::nat)) \<and>
   fst (query_openai (Some [107]) flaky (net (run0 0)) [73, 115, 32, 105, 116, 32, 111, 107, 63])
     = Inl (Raised [100, 111, 119, 110]) \<and>
   seen (ask_one (Some [107]) flaky (run0 0) [73, 115, 32, 105, 116, 32, 111, 107, 63]) = {} \<and>
   fst (query_openai (Some [107]) flaky (net (run0 2)) [73, 115, 32, 105, 116, 32, 111, 107, 63])
     = Inr [111, 107] \<and>
   seen (ask_one (Some [107]) flaky (run0 2) [73, 115, 32, 105, 116, 32, 111, 107, 63])
     = {[73, 115, 32, 105, 116, 32, 111, 107, 63]} \<and>
   \<not> no_key (Some [107]) \<and>
   [73, 115, 32, 105, 116, 32, 111, 107, 63] \<in> set (extract_questions [73, 115, 32, 105, 116, 32, 111, 107, 63]) \<and>
   requests (net (main_loop (Some [107]) flaky False (run0 0)
       [ [73, 115, 32, 105, 116, 32, 111, 107, 63], [73, 115, 32, 105, 116, 32, 111, 107, 63],
        [73, 115, 32, 105, 116, 32, 111, 107, 63]]))
     = [ [73, 115, 32, 105, 116, 32, 111, 107, 63], [73, 115, 32, 105, 116, 32, 111, 107, 63]] \<and>
   out (main_loop (Some [107]) flaky False (run0 0)
       [ [73, 115, 32, 105, 116, 32, 111, 107, 63], [73, 115, 32, 105, 116, 32, 111, 107, 63],
        [73, 115, 32, 105, 116, 32, 111, 107, 63]])
     = [QuestionDetected [73, 115, 32, 105, 116, 32, 111, 107, 63], ErrorWhileQuerying (Raised [100, 111, 119, 110]),
        QuestionDetected [73, 115, 32, 105, 116, 32, 111, 107, 63], Answer [111, 107]] \<and>
   ([73, 115, 32, 105, 116, 32, 111, 107, 63], Inl (Raised [100, 111, 119, 110])) \<in> set (capture_outcomes (Some [107]) flaky (run0 0) [73, 115, 32, 105, 116, 32, 111, 107, 63]) \<and>
   out (capture_cycle (Some [107]) flaky (run0 0) [73, 115, 32, 105, 116, 32, 111, 107, 63])
     = [QuestionDetected [73, 115, 32, 105, 116, 32, 111, 107, 63], ErrorWhileQuerying (Raised [100, 111, 119, 110])] \<and>
   [73, 115, 32, 105, 116, 32, 111, 107, 63] \<notin> seen (capture_cycle (Some [107]) flaky (run0 0) [73, 115, 32, 105, 116, 32, 111, 107, 63]) \<and>
   [73, 115, 32, 105, 116, 32, 111, 107, 63] \<in> fst ` set (capture_outcomes (Some [107]) flaky
         (capture_cycle (Some [107]) flaky (run0 0) [73, 115, 32, 105, 116, 32, 111, 107, 63]) [73, 115, 32, 105, 116, 32, 111, 107, 63]) \<and>
   ([73, 115, 32, 105, 116, 32, 111, 107, 63], Inr [111, 107]) \<in> set (capture_outcomes (Some [107]) flaky (run0 2) [73, 115, 32, 105, 116, 32, 111, 107, 63]) \<and>
   out (capture_cycle (Some [107]) flaky (run0 2) [73, 115, 32, 105, 116, 32, 111, 107, 63]) = [QuestionDetected [73, 115, 32, 105, 116, 32, 111, 107, 63], Answer [111, 107]] \<and>
   seen (capture_cycle (Some [107]) flaky (run0 2) [73, 115, 32, 105, 116, 32, 111, 107, 63]) = {[73, 115, 32, 105, 116, 32, 111, 107, 63]} \<and>
   [73, 115, 32, 105, 116, 32, 111, 107, 63] \<notin> fst ` set (capture_outcomes (Some [107]) flaky
         (capture_cycle (Some [107]) flaky (run0 2) [73, 115, 32, 105, 116, 32, 111, 107, 63]) [73, 115, 32, 105, 116, 32, 111, 107, 63]) \<and>
   [73, 115, 32, 105, 116, 32, 111, 107, 63] \<notin> set (new_requests (net (capture_cycle (Some [107]) flaky (run0 2) [73, 115, 32, 105, 116, 32, 111, 107, 63]))
         (net (main_loop (Some [107]) flaky False
            (capture_cycle (Some [107]) flaky (run0 2) [73, 115, 32, 105, 116, 32, 111, 107, 63])
            [ [73, 115, 32, 105, 116, 32, 111, 107, 63], [73, 115, 32, 105, 116, 32, 111, 107, 63]]))) \<and>
   [73, 115, 32, 105, 116, 32, 111, 107, 63] \<in> set (new_requests (net (run0 0))
         (net (capture_cycle (Some [107]) flaky (run0 0) [73, 115, 32, 105, 116, 32, 111, 107, 63])))"
proof -
  let ?q = "[73, 115, 32, 105, 116, 32, 111, 107, 63 :: nat]"
  let ?k = "Some [107 :: nat]"
  let ?down = "Raised [100, 111, 119, 110]"
  have k: "\<not> no_key ?k" by (simp add: no_key_def)
  have e: "extract_questions ?q = [?q]"
    by (simp add: extract_questions_def fromkeys_def strip_def is_upper_def is_space_def)
  have f: "fst (query_openai ?k flaky (net (run0 0)) ?q) = Inl ?down"
    by (simp add: query_openai_def no_key_def send_def flaky_def run0_def)
  have s: "fst (query_openai ?k flaky (net (run0 2)) ?q) = Inr [111, 107]"
    by (simp add: query_openai_def no_key_def send_def flaky_def run0_def strip_def is_space_def)
  have n0: "?q \<notin> seen (run0 (0::nat))" and n1: "?q \<notin> seen (run0 (2::nat))"
    by (simp_all add: run0_def)
  have a0: "seen (run0 (0::nat)) = {}" and a1: "seen (run0 (2::nat)) = {}"
    and b0: "out (run0 (0::nat)) = []" and b1: "out (run0 (2::nat)) = []"
    by (simp_all add: run0_def)
  have r: "requests (net (main_loop ?k flaky False (run0 0) [?q, ?q, ?q])) = [?q, ?q]"
    by (simp add: capture_cycle_def e ask_one_def query_openai_def no_key_def send_def flaky_def
          run0_def strip_def is_space_def)
  have o: "out (main_loop ?k flaky False (run0 0) [?q, ?q, ?q])
      = [QuestionDetected ?q, ErrorWhileQuerying ?down, QuestionDetected ?q, Answer [111, 107]]"
    by (simp add: capture_cycle_def e ask_one_def query_openai_def no_key_def send_def flaky_def
          run0_def strip_def is_space_def)
  have c0: "capture_outcomes ?k flaky (run0 0) ?q = [(?q, Inl ?down)]"
    using f by (simp add: capture_outcomes_def e a0)
  have c1: "capture_outcomes ?k flaky (run0 2) ?q = [(?q, Inr [111, 107])]"
    using s by (simp add: capture_outcomes_def e a1)
  note t0 = seen_set_discipline [where key = ?k and svc = flaky and st = "run0 0" and q = ?q
      and q' = ?q and e = ?down and src = ?q and nxt = ?q and a = "[]" and once = False
      and texts = "[]"]
  note t1 = seen_set_discipline [where key = ?k and svc = flaky and st = "run0 2" and q = ?q
      and q' = ?q and a = "[111, 107]" and src = ?q and nxt = ?q and e = "Raised []"
      and once = False and texts = "[?q, ?q]"]
  have p0: "(?q, Inl ?down) \<in> set (capture_outcomes ?k flaky (run0 0) ?q)"
    by (simp add: c0)
  have p1: "(?q, Inr [111, 107]) \<in> set (capture_outcomes ?k flaky (run0 2) ?q)"
    by (simp add: c1)
  note fail_body = t0 [THEN conjunct2, THEN conjunct2, THEN conjunct1]
  note ok_body = t1 [THEN conjunct2, THEN conjunct1]
  note retry_sent = t0 [THEN conjunct2, THEN conjunct2, THEN conjunct2, THEN conjunct1]
  note out0 = t0 [THEN conjunct2, THEN conjunct2, THEN conjunct2, THEN conjunct2, THEN conjunct2, THEN conjunct2, THEN conjunct2, THEN conjunct2, THEN conjunct1]
  note failed0 = t0 [THEN conjunct2, THEN conjunct2, THEN conjunct2, THEN conjunct2, THEN conjunct2, THEN conjunct2, THEN conjunct2, THEN conjunct2, THEN conjunct2, THEN conjunct2, THEN conjunct2, THEN conjunct1]
  note out2 = t1 [THEN conjunct2, THEN conjunct2, THEN conjunct2, THEN conjunct2, THEN conjunct2, THEN conjunct2, THEN conjunct2, THEN conjunct2, THEN conjunct1]
  note seen2 = t1 [THEN conjunct2, THEN conjunct2, THEN conjunct2, THEN conjunct2, THEN conjunct2, THEN conjunct2, THEN conjunct2, THEN conjunct2, THEN conjunct2, THEN conjunct1]
  note answered2 = t1 [THEN conjunct2, THEN conjunct2, THEN conjunct2, THEN conjunct2, THEN conjunct2, THEN conjunct2, THEN conjunct2, THEN conjunct2, THEN conjunct2, THEN conjunct2, THEN conjunct2, THEN conjunct2]
  from fail_body n0 f have d0: "seen (ask_one ?k flaky (run0 0) ?q) = {}" by (simp add: a0)
  from ok_body n1 s have d1: "seen (ask_one ?k flaky (run0 2) ?q) = {?q}" by (simp add: a1)
  from out0 have g0: "out (capture_cycle ?k flaky (run0 0) ?q)
      = [QuestionDetected ?q, ErrorWhileQuerying ?down]"
    by (simp add: c0 b0)
  from failed0 p0 have g1: "?q \<notin> seen (capture_cycle ?k flaky (run0 0) ?q)"
    and g2: "?q \<in> fst ` set (capture_outcomes ?k flaky (capture_cycle ?k flaky (run0 0) ?q) ?q)"
    by (simp_all add: e)
  from out2 have h0: "out (capture_cycle ?k flaky (run0 2) ?q) = [QuestionDetected ?q, Answer [111, 107]]"
    by (simp add: c1 b1)
  from seen2 have h1: "seen (capture_cycle ?k flaky (run0 2) ?q) = {?q}"
    by (auto simp: c1 a1)
  from answered2 p1 have h2: "?q \<notin> fst ` set (capture_outcomes ?k flaky (capture_cycle ?k flaky (run0 2) ?q) ?q)"
    and h3: "?q \<notin> set (new_requests (net (capture_cycle ?k flaky (run0 2) ?q))
         (net (main_loop ?k flaky False (capture_cycle ?k flaky (run0 2) ?q) [?q, ?q])))"
    by simp_all
  from retry_sent k n0 have g3: "?q \<in> set (new_requests (net (run0 0)) (net (capture_cycle ?k flaky (run0 0) ?q)))"
    by (simp add: e)
  show ?thesis
    using k f s n0 r o d0 d1 g0 g1 g2 g3 h0 h1 h2 h3 p0 p1 by (simp add: e)
qed

end
